theory Spec2Isabelle
  imports Main "HOL-Library.Word"
begin

unbundle bit_operations_syntax

section \<open>The MicroBit fiber scheduler (source/MicroBitFiber.cpp)\<close>

subsection \<open>Data model\<close>

text \<open>
  Addresses are 32-bit words and \<open>0\<close> is \<open>NULL\<close>. A \<open>Fiber **\<close> always holds the address
  of one of the four list heads of the scheduler, so it is modelled by the name of that
  head; \<open>None\<close> is the null queue pointer.
\<close>

type_synonym addr = "32 word"

datatype queue_id = RunQueue | SleepQueue | WaitQueue | FiberPool

text \<open>
  Modelled from the spec: the type \<open>Cortex_M0_TCB\<close> is declared in a header that is not
  part of the sources. The spec calls it an opaque saved-context blob; the code assigns
  its fields \<open>SP\<close> and \<open>LR\<close>, the remaining registers are kept as a list.
\<close>

record tcb =
  SP :: "32 word"
  LR :: "32 word"
  other_regs :: "32 word list"

text \<open>
  The \<open>Fiber\<close> structure. The fields \<open>context\<close>, \<open>next\<close> and \<open>prev\<close> of the source carry the
  prefix \<open>f_\<close> here.
\<close>

record fiber =
  tcb :: tcb
  stack_bottom :: "32 word"
  stack_top :: "32 word"
  f_context :: "32 word"
  flags :: "32 word"
  queue :: "queue_id option"
  f_next :: addr
  f_prev :: addr

text \<open>Calls made to the heap allocator, in the order they happen.\<close>

datatype heap_op = Malloc "32 word" addr | Free addr

text \<open>
  The scheduler's global variables, the store of \<open>Fiber\<close> records they point into, and
  the part of the machine the scheduler touches: the processor's registers (\<open>cpu\<close>), the
  memory the stacks live in (\<open>mem\<close>), and the allocator. The allocator is outside the
  scheduler: \<open>alloc_next\<close> lists the addresses its next calls will return (\<open>0\<close>, or an
  exhausted list, is an allocation failure), \<open>heap_log\<close> records the calls made.
\<close>

record sched =
  fibers :: "addr \<Rightarrow> fiber option"
  currentFiber :: addr
  forkedFiber :: addr
  runQueue :: addr
  sleepQueue :: addr
  waitQueue :: addr
  idle :: addr
  fiberPool :: addr
  emptyContext :: "tcb option"
  ticks :: "32 word"
  fiber_flags :: "8 word"
  cpu :: tcb
  mem :: "addr \<Rightarrow> 32 word"
  alloc_next :: "addr list"
  heap_log :: "heap_op list"

text \<open>
  Constants of headers that are not part of the sources; every function that uses one
  takes the record as its first argument.
\<close>

record config =
  FIBER_STACK_SIZE :: "32 word"
  FIBER_TICK_PERIOD_MS :: "32 word"
  CORTEX_M0_STACK_BASE :: "32 word"
  MICROBIT_FLAG_DATA_READ :: "8 word"
  sizeof_Cortex_M0_TCB :: "32 word"
  launch_new_fiber_addr :: "32 word"
  launch_new_fiber_param_addr :: "32 word"
  release_fiber_addr :: "32 word"
  release_fiber_param_addr :: "32 word"

text \<open>
  Modelled from the spec: the three fiber flags are declared in a header that is not part
  of the sources; the spec describes them as three independent bits.
\<close>

definition MICROBIT_FIBER_FLAG_FOB :: "32 word" where
  "MICROBIT_FIBER_FLAG_FOB = 0x01"

definition MICROBIT_FIBER_FLAG_PARENT :: "32 word" where
  "MICROBIT_FIBER_FLAG_PARENT = 0x02"

definition MICROBIT_FIBER_FLAG_CHILD :: "32 word" where
  "MICROBIT_FIBER_FLAG_CHILD = 0x04"

text \<open>
  Modelled from the spec: the two sentinels are declared in a header that is not part of
  the sources; the spec gives \<open>ID_ANY = 0\<close> and \<open>VALUE_ANY = 0\<close>.
\<close>

definition MICROBIT_ID_ANY :: "16 word" where
  "MICROBIT_ID_ANY = 0"

definition MICROBIT_EVT_ANY :: "16 word" where
  "MICROBIT_EVT_ANY = 0"

subsection \<open>Pointer access\<close>

text \<open>
  Reading or writing through a null pointer, or through an address that holds no
  \<open>Fiber\<close>, is an error of the model.
\<close>

datatype error = NullPointer | InvalidPointer

definition ebind :: "error + 'a \<Rightarrow> ('a \<Rightarrow> error + 'b) \<Rightarrow> error + 'b" where
  "ebind m k = (case m of Inl e \<Rightarrow> Inl e | Inr x \<Rightarrow> k x)"

definition deref :: "sched \<Rightarrow> addr \<Rightarrow> error + fiber" where
  "deref s p =
     (if p = 0 then Inl NullPointer
      else case fibers s p of None \<Rightarrow> Inl InvalidPointer | Some fb \<Rightarrow> Inr fb)"

definition store :: "addr \<Rightarrow> fiber \<Rightarrow> sched \<Rightarrow> sched" where
  "store p fb s = s\<lparr>fibers := (fibers s)(p \<mapsto> fb)\<rparr>"

text \<open>\<open>modify p g s\<close> is an assignment to fields of \<open>*p\<close>.\<close>

definition modify :: "addr \<Rightarrow> (fiber \<Rightarrow> fiber) \<Rightarrow> sched \<Rightarrow> error + sched" where
  "modify p g s = ebind (deref s p) (\<lambda>fb. Inr (store p (g fb) s))"

fun queue_head :: "queue_id \<Rightarrow> sched \<Rightarrow> addr" where
  "queue_head RunQueue s = runQueue s"
| "queue_head SleepQueue s = sleepQueue s"
| "queue_head WaitQueue s = waitQueue s"
| "queue_head FiberPool s = fiberPool s"

fun set_queue_head :: "queue_id \<Rightarrow> addr \<Rightarrow> sched \<Rightarrow> sched" where
  "set_queue_head RunQueue p s = s\<lparr>runQueue := p\<rparr>"
| "set_queue_head SleepQueue p s = s\<lparr>sleepQueue := p\<rparr>"
| "set_queue_head WaitQueue p s = s\<lparr>waitQueue := p\<rparr>"
| "set_queue_head FiberPool p s = s\<lparr>fiberPool := p\<rparr>"

subsection \<open>Queue primitives\<close>

text \<open>
  \<open>queue_fiber(f, queue)\<close>: three assignments to \<open>*f\<close>, then the old head's \<open>prev\<close>, then
  the head itself.
\<close>

definition queue_fiber :: "addr \<Rightarrow> queue_id \<Rightarrow> sched \<Rightarrow> error + sched" where
  "queue_fiber f q s =
     ebind (modify f (\<lambda>fb. fb\<lparr>queue := Some q, f_next := queue_head q s, f_prev := 0\<rparr>) s)
       (\<lambda>s1. ebind (if queue_head q s1 \<noteq> 0
                     then modify (queue_head q s1) (\<lambda>hb. hb\<lparr>f_prev := f\<rparr>) s1
                     else Inr s1)
          (\<lambda>s2. Inr (set_queue_head q f s2)))"

text \<open>
  \<open>dequeue_fiber(f)\<close>. Every statement reads \<open>*f\<close> again, as the source does, so that the
  model is right also when \<open>f\<close> is its own neighbour.
\<close>

definition dequeue_fiber :: "addr \<Rightarrow> sched \<Rightarrow> error + sched" where
  "dequeue_fiber f s =
     ebind (deref s f) (\<lambda>fb.
       case queue fb of
         None \<Rightarrow> Inr s
       | Some q \<Rightarrow>
           ebind (if f_prev fb \<noteq> 0
                  then modify (f_prev fb) (\<lambda>pb. pb\<lparr>f_next := f_next fb\<rparr>) s
                  else Inr (set_queue_head q (f_next fb) s))
             (\<lambda>s1. ebind (deref s1 f) (\<lambda>fb1.
                ebind (if f_next fb1 \<noteq> 0
                       then modify (f_next fb1) (\<lambda>nb. nb\<lparr>f_prev := f_prev fb1\<rparr>) s1
                       else Inr s1)
                  (\<lambda>s2. modify f (\<lambda>fb2. fb2\<lparr>f_next := 0, f_prev := 0, queue := None\<rparr>) s2))))"

subsection \<open>The allocator\<close>

text \<open>
  Modelled from the spec: heap allocation is an external collaborator. Each call takes
  the next address of \<open>alloc_next\<close>. \<open>new Fiber()\<close> value-initialises the record, so all
  its fields are zero.
\<close>

definition zero_fiber :: fiber where
  "zero_fiber =
     \<lparr>tcb = \<lparr>SP = 0, LR = 0, other_regs = []\<rparr>, stack_bottom = 0, stack_top = 0,
      f_context = 0, flags = 0, queue = None, f_next = 0, f_prev = 0\<rparr>"

definition malloc :: "32 word \<Rightarrow> sched \<Rightarrow> addr \<times> sched" where
  "malloc n s =
     (case alloc_next s of
        [] \<Rightarrow> (0, s\<lparr>heap_log := heap_log s @ [Malloc n 0]\<rparr>)
      | a # as \<Rightarrow> (a, s\<lparr>alloc_next := as, heap_log := heap_log s @ [Malloc n a]\<rparr>))"

definition free :: "addr \<Rightarrow> sched \<Rightarrow> sched" where
  "free p s = s\<lparr>heap_log := heap_log s @ [Free p]\<rparr>"

definition new_Fiber :: "sched \<Rightarrow> addr \<times> sched" where
  "new_Fiber s =
     (case alloc_next s of
        [] \<Rightarrow> (0, s)
      | a # as \<Rightarrow>
          (a, if a = 0 then s\<lparr>alloc_next := as\<rparr>
              else s\<lparr>alloc_next := as, fibers := (fibers s)(a \<mapsto> zero_fiber)\<rparr>))"

definition delete_Fiber :: "addr \<Rightarrow> sched \<Rightarrow> sched" where
  "delete_Fiber p s = s\<lparr>fibers := (fibers s)(p := None)\<rparr>"

subsection \<open>\<open>getFiberContext\<close>\<close>

definition getFiberContext :: "config \<Rightarrow> sched \<Rightarrow> error + addr \<times> sched" where
  "getFiberContext cfg s =
     (if fiberPool s \<noteq> 0 then
        ebind (dequeue_fiber (fiberPool s) s) (\<lambda>s1.
        ebind (modify (fiberPool s) (\<lambda>fb. fb\<lparr>flags := 0\<rparr>) s1) (\<lambda>s2.
        Inr (fiberPool s, s2)))
      else
        (case new_Fiber s of (f, s1) \<Rightarrow>
           if f = 0 then Inr (0, s1)
           else
             (case malloc (FIBER_STACK_SIZE cfg) s1 of (b, s2) \<Rightarrow>
                ebind (modify f (\<lambda>fb. fb\<lparr>stack_bottom := b\<rparr>) s2) (\<lambda>s3.
                ebind (modify f
                         (\<lambda>fb. fb\<lparr>stack_top := stack_bottom fb + FIBER_STACK_SIZE cfg\<rparr>) s3) (\<lambda>s4.
                ebind (deref s4 f) (\<lambda>fb.
                  if stack_bottom fb = 0 then Inr (0, delete_Fiber f s4)
                  else ebind (modify f (\<lambda>fb. fb\<lparr>flags := 0\<rparr>) s4) (\<lambda>s5. Inr (f, s5))))))))"

subsection \<open>\<open>verify_stack_size\<close>\<close>

text \<open>
  The loop \<open>while (bufferSize < stackDepth) bufferSize = bufferSize << 1\<close> on 32-bit
  unsigned values. It need not end, so the result is an option and \<open>None\<close> is a loop
  that runs forever.
\<close>

partial_function (option) grow_buffer :: "32 word \<Rightarrow> 32 word \<Rightarrow> 32 word option" where
  "grow_buffer bufferSize stackDepth =
     (if bufferSize < stackDepth then grow_buffer (push_bit 1 bufferSize) stackDepth
      else Some bufferSize)"

declare grow_buffer.simps [code]

text \<open>
  Results of functions that may fault or run forever: \<open>None\<close> is a run that never
  returns, \<open>Some (Inl e)\<close> a fault, \<open>Some (Inr x)\<close> a result.
\<close>

definition rbind :: "(error + 'a) option \<Rightarrow> ('a \<Rightarrow> (error + 'b) option) \<Rightarrow> (error + 'b) option" where
  "rbind m k = (case m of None \<Rightarrow> None | Some (Inl e) \<Rightarrow> Some (Inl e) | Some (Inr x) \<Rightarrow> k x)"

text \<open>\<open>__get_MSP()\<close> reads the stack pointer of the processor.\<close>

definition verify_stack_size :: "config \<Rightarrow> addr \<Rightarrow> sched \<Rightarrow> (error + sched) option" where
  "verify_stack_size cfg f s =
     (let stackDepth = CORTEX_M0_STACK_BASE cfg - SP (cpu s) in
      rbind (Some (deref s f)) (\<lambda>fb.
        let bufferSize = stack_top fb - stack_bottom fb in
        if bufferSize < stackDepth then
          (case grow_buffer bufferSize stackDepth of
             None \<Rightarrow> None
           | Some bufferSize' \<Rightarrow>
               (case malloc bufferSize' (free (stack_bottom fb) s) of (b, s1) \<Rightarrow>
                  Some (ebind (modify f (\<lambda>fb. fb\<lparr>stack_bottom := b\<rparr>) s1) (\<lambda>s2.
                        modify f (\<lambda>fb. fb\<lparr>stack_top := stack_bottom fb + bufferSize'\<rparr>) s2))))
        else Some (Inr s)))"

subsection \<open>Context-switch primitives\<close>

text \<open>
  Modelled from the spec: \<open>save_context\<close>, \<open>save_register_context\<close>,
  \<open>restore_register_context\<close> and \<open>swap_context\<close> are assembly routines that are not part
  of the sources. Following the contract the spec gives for them, saving copies the
  processor's registers into the slot, restoring copies the slot into the registers, and
  swapping saves into the first slot and then restores from the second. The copy of the
  stack's contents is not modelled.
\<close>

definition save_context :: "addr \<Rightarrow> sched \<Rightarrow> error + sched" where
  "save_context p s = modify p (\<lambda>fb. fb\<lparr>tcb := cpu s\<rparr>) s"

definition save_register_context :: "addr \<Rightarrow> sched \<Rightarrow> error + sched" where
  "save_register_context p s = modify p (\<lambda>fb. fb\<lparr>tcb := cpu s\<rparr>) s"

definition restore_register_context :: "addr \<Rightarrow> sched \<Rightarrow> error + sched" where
  "restore_register_context p s = ebind (deref s p) (\<lambda>fb. Inr (s\<lparr>cpu := tcb fb\<rparr>))"

definition swap_context :: "addr \<Rightarrow> addr \<Rightarrow> sched \<Rightarrow> error + sched" where
  "swap_context from to s =
     ebind (deref s from) (\<lambda>_.
     ebind (deref s to) (\<lambda>_.
     ebind (modify from (\<lambda>fb. fb\<lparr>tcb := cpu s\<rparr>) s) (\<lambda>s1.
     ebind (deref s1 to) (\<lambda>tb. Inr (s1\<lparr>cpu := tcb tb\<rparr>)))))"

subsection \<open>\<open>schedule\<close>\<close>

text \<open>
  How control leaves a scheduler function: it returns to its caller in the fiber that
  called it, or \<open>restore_register_context\<close> has put that fiber back at its register
  snapshot, or \<open>swap_context\<close> has given the processor to the new current fiber.
\<close>

datatype exit = Returned | Restored | Switched

text \<open>The round robin of \<open>schedule\<close>: the assignment to \<open>currentFiber\<close>.\<close>

definition schedule_select :: "config \<Rightarrow> sched \<Rightarrow> error + sched" where
  "schedule_select cfg s =
     (if runQueue s = 0 \<or> fiber_flags s AND MICROBIT_FLAG_DATA_READ cfg \<noteq> 0
      then Inr (s\<lparr>currentFiber := idle s\<rparr>)
      else ebind (deref s (currentFiber s)) (\<lambda>cb.
        if queue cb = Some RunQueue
        then Inr (s\<lparr>currentFiber := (if f_next cb = 0 then runQueue s else f_next cb)\<rparr>)
        else Inr (s\<lparr>currentFiber := runQueue s\<rparr>)))"

text \<open>The switch at the end of \<open>schedule\<close>.\<close>

definition schedule_switch :: "config \<Rightarrow> addr \<Rightarrow> sched \<Rightarrow> (error + exit \<times> sched) option" where
  "schedule_switch cfg oldFiber s =
     (if currentFiber s \<noteq> oldFiber then
        rbind (verify_stack_size cfg oldFiber s) (\<lambda>s1.
          Some (ebind (swap_context oldFiber (currentFiber s1) s1) (\<lambda>s2. Inr (Switched, s2))))
      else Some (Inr (Returned, s)))"

definition schedule :: "config \<Rightarrow> sched \<Rightarrow> (error + exit \<times> sched) option" where
  "schedule cfg s =
     (let oldFiber = currentFiber s in
      rbind (Some (deref s (currentFiber s))) (\<lambda>cb.
        if flags cb AND MICROBIT_FIBER_FLAG_FOB \<noteq> 0 then
          rbind (verify_stack_size cfg (forkedFiber s) s) (\<lambda>s1.
            Some (ebind (modify (currentFiber s1)
                           (\<lambda>fb. fb\<lparr>flags := flags fb OR MICROBIT_FIBER_FLAG_PARENT\<rparr>) s1) (\<lambda>s2.
                  ebind (modify (forkedFiber s2)
                           (\<lambda>fb. fb\<lparr>flags := flags fb OR MICROBIT_FIBER_FLAG_CHILD\<rparr>) s2) (\<lambda>s3.
                  ebind (save_context (forkedFiber s3) s3) (\<lambda>s4.
                  ebind (deref s4 (currentFiber s4)) (\<lambda>cb4.
                    if flags cb4 AND MICROBIT_FIBER_FLAG_PARENT \<noteq> 0
                    then ebind (restore_register_context (currentFiber s4) s4)
                           (\<lambda>s5. Inr (Restored, s5))
                    else Inr (Returned, s4)))))))
        else
          rbind (Some (schedule_select cfg s)) (\<lambda>s1. schedule_switch cfg oldFiber s1)))"

subsection \<open>Creating and releasing fibers\<close>

text \<open>
  The two stores and three stores that write the trampoline frame at the base of the new
  fiber's stack.
\<close>

definition write_word :: "addr \<Rightarrow> 32 word \<Rightarrow> 32 word \<Rightarrow> sched \<Rightarrow> error + sched" where
  "write_word base off v s =
     (if base = 0 then Inl NullPointer else Inr (s\<lparr>mem := (mem s)(base + off := v)\<rparr>))"

text \<open>
  The initialisation of the new fiber's saved context in
  \<open>create_fiber(entry_fn, completion_fn)\<close>: a copy of the cached context if there is one;
  otherwise the context is built from the running one and cached. The \<open>malloc\<close> of the
  cache is not checked by the source, so its failure is a write through \<open>NULL\<close>.
\<close>

definition initial_context :: "config \<Rightarrow> addr \<Rightarrow> sched \<Rightarrow> error + sched" where
  "initial_context cfg newFiber s =
     (case emptyContext s of
        Some ec \<Rightarrow> modify newFiber (\<lambda>fb. fb\<lparr>tcb := ec\<rparr>) s
      | None \<Rightarrow>
          ebind (save_context newFiber s) (\<lambda>s1.
          ebind (modify newFiber
                   (\<lambda>fb. fb\<lparr>tcb := (tcb fb)\<lparr>SP := CORTEX_M0_STACK_BASE cfg,
                                            LR := launch_new_fiber_addr cfg\<rparr>\<rparr>) s1) (\<lambda>s2.
          case malloc (sizeof_Cortex_M0_TCB cfg) s2 of (a, s3) \<Rightarrow>
            if a = 0 then Inl NullPointer
            else ebind (deref s3 newFiber) (\<lambda>fb. Inr (s3\<lparr>emptyContext := Some (tcb fb)\<rparr>)))))"

text \<open>\<open>create_fiber(entry_fn, completion_fn)\<close>.\<close>

definition create_fiber :: "config \<Rightarrow> addr \<Rightarrow> addr \<Rightarrow> sched \<Rightarrow> error + addr \<times> sched" where
  "create_fiber cfg entry_fn completion_fn s =
     (if entry_fn = 0 \<or> completion_fn = 0 then Inr (0, s)
      else
        ebind (getFiberContext cfg s) (\<lambda>(newFiber, s1).
          if newFiber = 0 then Inr (0, s1)
          else
            ebind (deref s1 newFiber) (\<lambda>nb.
            ebind (write_word (stack_bottom nb) 0 entry_fn s1) (\<lambda>s2.
            ebind (write_word (stack_bottom nb) 4 completion_fn s2) (\<lambda>s3.
            ebind (initial_context cfg newFiber s3) (\<lambda>s4.
            ebind (queue_fiber newFiber RunQueue s4) (\<lambda>s5. Inr (newFiber, s5))))))))"

text \<open>
  The same step in \<open>create_fiber(entry_fn, param, completion_fn)\<close>: always a copy of the
  cached context, which the source takes to exist, then the link register.
\<close>

definition initial_context_param :: "config \<Rightarrow> addr \<Rightarrow> sched \<Rightarrow> error + sched" where
  "initial_context_param cfg newFiber s =
     ebind
       (case emptyContext s of
          Some ec \<Rightarrow> modify newFiber (\<lambda>fb. fb\<lparr>tcb := ec\<rparr>) s
        | None \<Rightarrow> Inl NullPointer) (\<lambda>s1.
     modify newFiber (\<lambda>fb. fb\<lparr>tcb := (tcb fb)\<lparr>LR := launch_new_fiber_param_addr cfg\<rparr>\<rparr>) s1)"

text \<open>\<open>create_fiber(entry_fn, param, completion_fn)\<close>.\<close>

definition create_fiber_param ::
  "config \<Rightarrow> addr \<Rightarrow> 32 word \<Rightarrow> addr \<Rightarrow> sched \<Rightarrow> error + addr \<times> sched" where
  "create_fiber_param cfg entry_fn param completion_fn s =
     (if entry_fn = 0 \<or> completion_fn = 0 then Inr (0, s)
      else
        ebind (getFiberContext cfg s) (\<lambda>(newFiber, s1).
          if newFiber = 0 then Inr (0, s1)
          else
            ebind (deref s1 newFiber) (\<lambda>nb.
            ebind (write_word (stack_bottom nb) 0 entry_fn s1) (\<lambda>s2.
            ebind (write_word (stack_bottom nb) 4 param s2) (\<lambda>s3.
            ebind (write_word (stack_bottom nb) 8 completion_fn s3) (\<lambda>s4.
            ebind (initial_context_param cfg newFiber s4) (\<lambda>s5.
            ebind (queue_fiber newFiber RunQueue s5) (\<lambda>s6. Inr (newFiber, s6)))))))))"

text \<open>\<open>release_fiber()\<close>; \<open>release_fiber(param)\<close> only calls it.\<close>

definition release_fiber :: "config \<Rightarrow> sched \<Rightarrow> (error + exit \<times> sched) option" where
  "release_fiber cfg s =
     rbind (Some (ebind (dequeue_fiber (currentFiber s) s)
                    (\<lambda>s1. queue_fiber (currentFiber s1) FiberPool s1)))
       (\<lambda>s2. schedule cfg s2)"

definition release_fiber_param ::
  "config \<Rightarrow> 32 word \<Rightarrow> sched \<Rightarrow> (error + exit \<times> sched) option" where
  "release_fiber_param cfg param s = release_fiber cfg s"

subsection \<open>Blocking primitives\<close>

text \<open>
  The choice of the fiber to block, shared by \<open>fiber_sleep\<close> and
  \<open>fiber_wait_for_event\<close>: the current fiber, or in fork-on-block mode the record
  \<open>getFiberContext\<close> returns, when it returns one.
\<close>

definition fiber_to_block :: "config \<Rightarrow> sched \<Rightarrow> error + addr \<times> sched" where
  "fiber_to_block cfg s =
     ebind (deref s (currentFiber s)) (\<lambda>cb.
       if flags cb AND MICROBIT_FIBER_FLAG_FOB \<noteq> 0 then
         ebind (getFiberContext cfg s) (\<lambda>(ff, s1).
           Inr (if ff \<noteq> 0 then ff else currentFiber s, s1\<lparr>forkedFiber := ff\<rparr>))
       else Inr (currentFiber s, s))"

definition fiber_sleep :: "config \<Rightarrow> 32 word \<Rightarrow> sched \<Rightarrow> (error + exit \<times> sched) option" where
  "fiber_sleep cfg t s =
     rbind (Some (ebind (fiber_to_block cfg s) (\<lambda>(f, s1).
                  ebind (modify f (\<lambda>fb. fb\<lparr>f_context := ticks s1 + t\<rparr>) s1) (\<lambda>s2.
                  ebind (dequeue_fiber f s2) (\<lambda>s3.
                  queue_fiber f SleepQueue s3)))))
       (\<lambda>s4. schedule cfg s4)"

text \<open>
  \<open>value << 16 | id\<close> on two \<open>uint16_t\<close> arguments, stored in the 32-bit \<open>context\<close>.
\<close>

definition fiber_wait_for_event ::
  "config \<Rightarrow> 16 word \<Rightarrow> 16 word \<Rightarrow> sched \<Rightarrow> (error + exit \<times> sched) option" where
  "fiber_wait_for_event cfg ident val s =
     rbind (Some (ebind (fiber_to_block cfg s) (\<lambda>(f, s1).
                  ebind (modify f
                           (\<lambda>fb. fb\<lparr>f_context := push_bit 16 (ucast val) OR ucast ident\<rparr>) s1) (\<lambda>s2.
                  ebind (dequeue_fiber f s2) (\<lambda>s3.
                  queue_fiber f WaitQueue s3)))))
       (\<lambda>s4. schedule cfg s4)"

subsection \<open>The timer tick and the event callback\<close>

text \<open>
  Both walk a list through its \<open>next\<close> pointers; a list that closes on itself keeps the
  walk going forever, so the result is an option.
\<close>

partial_function (option) tick_walk :: "addr \<Rightarrow> sched \<Rightarrow> (error + sched) option" where
  "tick_walk f s =
     (if f = 0 then Some (Inr s)
      else
        (case deref s f of
           Inl e \<Rightarrow> Some (Inl e)
         | Inr fb \<Rightarrow>
             if f_context fb \<le> ticks s then
               (case ebind (dequeue_fiber f s) (\<lambda>s1. queue_fiber f RunQueue s1) of
                  Inl e \<Rightarrow> Some (Inl e)
                | Inr s2 \<Rightarrow> tick_walk (f_next fb) s2)
             else tick_walk (f_next fb) s))"

declare tick_walk.simps [code]

definition scheduler_tick :: "config \<Rightarrow> sched \<Rightarrow> (error + sched) option" where
  "scheduler_tick cfg s =
     tick_walk (sleepQueue s) (s\<lparr>ticks := ticks s + FIBER_TICK_PERIOD_MS cfg\<rparr>)"

record MicroBitEvent =
  source :: "16 word"
  evt_value :: "16 word"

text \<open>
  The two extractions of \<open>scheduler_event\<close>, each assigned to a \<open>uint16_t\<close>:
  \<open>f->context & 0xFF\<close> and \<open>(f->context & 0xFF00) >> 16\<close>.
\<close>

definition context_id :: "32 word \<Rightarrow> 16 word" where
  "context_id c = ucast (c AND 0xFF)"

definition context_value :: "32 word \<Rightarrow> 16 word" where
  "context_value c = ucast (drop_bit 16 (c AND 0xFF00))"

definition event_matches :: "32 word \<Rightarrow> MicroBitEvent \<Rightarrow> bool" where
  "event_matches c evt =
     ((context_id c = MICROBIT_ID_ANY \<or> context_id c = source evt) \<and>
      (context_value c = MICROBIT_EVT_ANY \<or> context_value c = evt_value evt))"

partial_function (option) event_walk ::
  "MicroBitEvent \<Rightarrow> addr \<Rightarrow> sched \<Rightarrow> (error + sched) option" where
  "event_walk evt f s =
     (if f = 0 then Some (Inr s)
      else
        (case deref s f of
           Inl e \<Rightarrow> Some (Inl e)
         | Inr fb \<Rightarrow>
             if event_matches (f_context fb) evt then
               (case ebind (dequeue_fiber f s) (\<lambda>s1. queue_fiber f RunQueue s1) of
                  Inl e \<Rightarrow> Some (Inl e)
                | Inr s2 \<Rightarrow> event_walk evt (f_next fb) s2)
             else event_walk evt (f_next fb) s))"

declare event_walk.simps [code]

definition scheduler_event :: "MicroBitEvent \<Rightarrow> sched \<Rightarrow> (error + sched) option" where
  "scheduler_event evt s = event_walk evt (waitQueue s) s"

subsection \<open>\<open>fork_on_block\<close>\<close>










subsection \<open>Queues as lists\<close>

text \<open>
  \<open>dlseg s q p h xs e\<close>: following \<open>next\<close> from \<open>h\<close> visits the records \<open>xs\<close> and ends at
  \<open>e\<close>; every record visited has its queue pointer at \<open>q\<close> and its \<open>prev\<close> at the record
  before it, \<open>p\<close> for the first one. A queue is such a segment from its head to \<open>NULL\<close>
  whose first record has a null \<open>prev\<close>.
\<close>

fun dlseg :: "sched \<Rightarrow> queue_id \<Rightarrow> addr \<Rightarrow> addr \<Rightarrow> addr list \<Rightarrow> addr \<Rightarrow> bool" where
  "dlseg s q p h [] e = (h = e)"
| "dlseg s q p h (x # xs) e =
     (h = x \<and> x \<noteq> 0 \<and>
      (case fibers s x of
         None \<Rightarrow> False
       | Some fb \<Rightarrow> f_prev fb = p \<and> queue fb = Some q \<and> dlseg s q x (f_next fb) xs e))"

definition is_queue :: "sched \<Rightarrow> queue_id \<Rightarrow> addr list \<Rightarrow> bool" where
  "is_queue s q xs = dlseg s q 0 (queue_head q s) xs 0"

subsection \<open>Views of a state\<close>

text \<open>
  \<open>unlinked\<close> blanks the three link fields of a record and \<open>erase_links\<close> does so in the
  whole state, list heads included: two states with the same \<open>erase_links\<close> differ in
  the linkage of the queues only. \<open>queue_view\<close> keeps what the queues, the timer and the
  event callback look at: the list heads and, of every record, its links and its
  \<open>context\<close> word.
\<close>

definition unlinked :: "fiber \<Rightarrow> fiber" where
  "unlinked fb = fb\<lparr>f_next := 0, f_prev := 0, queue := None\<rparr>"

definition erase_links :: "sched \<Rightarrow> sched" where
  "erase_links s =
     s\<lparr>fibers := (\<lambda>x. map_option unlinked (fibers s x)),
       runQueue := 0, sleepQueue := 0, waitQueue := 0, fiberPool := 0\<rparr>"

definition linkage :: "fiber \<Rightarrow> queue_id option \<times> addr \<times> addr \<times> 32 word" where
  "linkage fb = (queue fb, f_next fb, f_prev fb, f_context fb)"

definition queue_view ::
  "sched \<Rightarrow> (addr \<Rightarrow> (queue_id option \<times> addr \<times> addr \<times> 32 word) option) \<times> addr \<times> addr \<times> addr \<times> addr" where
  "queue_view s =
     (\<lambda>x. map_option linkage (fibers s x), runQueue s, sleepQueue s, waitQueue s, fiberPool s)"

text \<open>\<open>same_queues s s'\<close>: the step from \<open>s\<close> to \<open>s'\<close> changed neither that view nor the clock.\<close>

definition same_queues :: "sched \<Rightarrow> sched \<Rightarrow> bool" where
  "same_queues s s' \<longleftrightarrow> queue_view s' = queue_view s \<and> ticks s' = ticks s"





subsection \<open>The selection rule as the specification words it\<close>

text \<open>
  The fiber \<open>schedule\<close> picks outside fork-on-block mode, following the specification:
  the idle fiber if the run queue is empty or a data read is pending; else, if the
  current fiber is on the run queue, its successor, or the head if it was the tail; else
  the head of the run queue.
\<close>

definition spec_runnable :: "config \<Rightarrow> sched \<Rightarrow> addr" where
  "spec_runnable cfg s =
     (if runQueue s = 0 \<or> fiber_flags s AND MICROBIT_FLAG_DATA_READ cfg \<noteq> 0 then idle s
      else
        (case fibers s (currentFiber s) of
           Some cb \<Rightarrow>
             if queue cb = Some RunQueue
             then (if f_next cb = 0 then runQueue s else f_next cb)
             else runQueue s
         | None \<Rightarrow> runQueue s))"

subsection \<open>Example states\<close>

text \<open>
  A configuration with a 64-byte initial stack and a tick every millisecond, and a state
  with the fibers \<open>0x100\<close> (current) and \<open>0x200\<close> on the run queue, the idle fiber
  \<open>0x300\<close> and the unlinked fiber \<open>0x400\<close>. The processor's stack is 28 bytes deep.
\<close>

definition cfg0 :: config where
  "cfg0 =
     \<lparr>FIBER_STACK_SIZE = 64, FIBER_TICK_PERIOD_MS = 1, CORTEX_M0_STACK_BASE = 0x20003FFC,
      MICROBIT_FLAG_DATA_READ = 1, sizeof_Cortex_M0_TCB = 40,
      launch_new_fiber_addr = 0x1000, launch_new_fiber_param_addr = 0x1100,
      release_fiber_addr = 0x1200, release_fiber_param_addr = 0x1300\<rparr>"

definition regs0 :: tcb where
  "regs0 = \<lparr>SP = 0x20003FE0, LR = 0, other_regs = []\<rparr>"

definition mk_fiber ::
  "32 word \<Rightarrow> 32 word \<Rightarrow> 32 word \<Rightarrow> queue_id option \<Rightarrow> addr \<Rightarrow> addr \<Rightarrow> fiber" where
  "mk_fiber bottom c fl q n p =
     \<lparr>tcb = regs0, stack_bottom = bottom, stack_top = bottom + 64, f_context = c,
      flags = fl, queue = q, f_next = n, f_prev = p\<rparr>"

definition st0 :: sched where
  "st0 =
     \<lparr>fibers = Map.empty
        (0x100 \<mapsto> mk_fiber 0x2000 0 0 (Some RunQueue) 0x200 0,
         0x200 \<mapsto> mk_fiber 0x2100 0 0 (Some RunQueue) 0 0x100,
         0x300 \<mapsto> mk_fiber 0x2200 0 0 None 0 0,
         0x400 \<mapsto> mk_fiber 0x2300 0 0 None 0 0),
      currentFiber = 0x100, forkedFiber = 0, runQueue = 0x100, sleepQueue = 0,
      waitQueue = 0, idle = 0x300, fiberPool = 0, emptyContext = Some regs0, ticks = 0,
      fiber_flags = 0, cpu = regs0, mem = (\<lambda>_. 0), alloc_next = [], heap_log = []\<rparr>"

text \<open>The same state with the current fiber in fork-on-block mode.\<close>

definition st_fob :: sched where
  "st_fob = st0\<lparr>fibers := (fibers st0)(0x100 \<mapsto> mk_fiber 0x2000 0 1 (Some RunQueue) 0x200 0)\<rparr>"

text \<open>
  The same state with the processor's stack 200 bytes deep and an allocator that will
  return \<open>0x3000\<close>.
\<close>

definition st_deep :: sched where
  "st_deep = st0\<lparr>cpu := regs0\<lparr>SP := 0x20003F34\<rparr>, alloc_next := [0x3000]\<rparr>"

text \<open>A state whose run queue holds the current fiber only.\<close>

definition st_single :: sched where
  "st_single = st0\<lparr>fibers := (fibers st0)(0x100 \<mapsto> mk_fiber 0x2000 0 0 (Some RunQueue) 0 0)\<rparr>"

text \<open>
  The state \<open>st0\<close> with the fiber \<open>0x400\<close> in the pool, released while its \<open>CHILD\<close> flag
  was set.
\<close>

definition st_pool :: sched where
  "st_pool =
     st0\<lparr>fibers := (fibers st0)(0x400 \<mapsto> mk_fiber 0x2300 0 4 (Some FiberPool) 0 0),
         fiberPool := 0x400\<rparr>"

text \<open>The state \<open>st0\<close> with the \<open>CHILD\<close> flag set on the current fiber.\<close>

definition st_child :: sched where
  "st_child = st0\<lparr>fibers := (fibers st0)(0x100 \<mapsto> mk_fiber 0x2000 0 4 (Some RunQueue) 0x200 0)\<rparr>"

section \<open>Properties\<close>

subsection \<open>List heads and stores\<close>

lemma set_queue_head_fibers [simp]: "fibers (set_queue_head q p s) = fibers s"
  by (cases q) simp_all

lemma queue_head_set [simp]: "queue_head q (set_queue_head q p s) = p"
  by (cases q) simp_all

lemma queue_head_set_other [simp]: "q' \<noteq> q \<Longrightarrow> queue_head q' (set_queue_head q p s) = queue_head q' s"
  by (cases q; cases q') simp_all

lemma queue_head_fibers_upd [simp]: "queue_head q (s\<lparr>fibers := m\<rparr>) = queue_head q s"
  by (cases q) simp_all

lemma queue_head_store [simp]: "queue_head q (store p fb s) = queue_head q s"
  by (simp add: store_def)

lemma set_queue_head_fibers_upd [simp]:
  "set_queue_head q p (s\<lparr>fibers := m\<rparr>) = (set_queue_head q p s)\<lparr>fibers := m\<rparr>"
  by (cases q) simp_all

lemma set_queue_head_twice [simp]:
  "set_queue_head q p (set_queue_head q p' s) = set_queue_head q p s"
  by (cases q) simp_all

lemma set_queue_head_same: "queue_head q s = p \<Longrightarrow> set_queue_head q p s = s"
  by (cases q) auto

lemma deref_Inr: "deref s p = Inr fb \<longleftrightarrow> p \<noteq> 0 \<and> fibers s p = Some fb"
  by (auto simp: deref_def split: option.splits)

lemma dlseg_store_unlinked:
  "fibers s f = Some fb \<Longrightarrow> queue fb = None \<Longrightarrow> queue fb' = None \<Longrightarrow>
   dlseg (store f fb' s) q p h xs e = dlseg s q p h xs e"
  by (induction xs arbitrary: p h) (auto simp: store_def split: option.splits)

subsection \<open>Queue round trip\<close>

lemma queue_then_dequeue:
  assumes f: "deref s f = Inr fb" and off: "queue fb = None" and wf: "is_queue s q xs"
  shows "ebind (queue_fiber f q s) (dequeue_fiber f) =
         Inr (store f (fb\<lparr>f_next := 0, f_prev := 0\<rparr>) s)"
proof -
  from f have f0: "f \<noteq> 0" and ff: "fibers s f = Some fb"
    by (simp_all add: deref_Inr)
  from off have fbq:
    "fb\<lparr>f_next := 0, f_prev := 0, queue := None\<rparr> = fb\<lparr>f_next := 0, f_prev := 0\<rparr>"
    by simp
  show ?thesis
  proof (cases xs)
    case Nil
    with wf have h0: "queue_head q s = 0" by (simp add: is_queue_def)
    then show ?thesis using f0 ff fbq
      by (simp add: queue_fiber_def dequeue_fiber_def modify_def deref_def ebind_def
          store_def set_queue_head_same)
  next
    case (Cons h list)
    with wf obtain hb where h: "queue_head q s = h" "h \<noteq> 0" "fibers s h = Some hb"
      "f_prev hb = 0" "queue hb = Some q"
      by (auto simp: is_queue_def split: option.splits)
    from h off ff have hf: "h \<noteq> f" by auto
    from h have hbp: "hb\<lparr>f_prev := 0\<rparr> = hb" by simp
    show ?thesis using f0 ff fbq h hf hbp
      by (simp add: queue_fiber_def dequeue_fiber_def modify_def deref_def ebind_def
          store_def set_queue_head_same fun_upd_twist map_upd_triv)
  qed
qed

text \<open>
  C5. For a fiber \<open>f\<close> whose queue pointer is null and a well-formed target queue,
  \<open>queue_fiber(f, q)\<close> followed by \<open>dequeue_fiber(f)\<close> changes nothing but the two link
  fields of \<open>f\<close> itself, which it sets to null: every list head is as before, every
  queue holds the same records in the same order, and when the links of \<open>f\<close> were null
  already (as they are after \<open>new Fiber()\<close> and after every \<open>dequeue_fiber\<close>) the whole
  state is the one before the pair. \<open>dequeue_fiber(f)\<close> on a fiber whose queue pointer is
  null returns the state unchanged.
\<close>

theorem enqueue_dequeue_roundtrip:
  assumes "deref s f = Inr fb" and "queue fb = None" and "is_queue s q xs"
  shows "ebind (queue_fiber f q s) (dequeue_fiber f) =
           Inr (store f (fb\<lparr>f_next := 0, f_prev := 0\<rparr>) s) \<and>
         is_queue (store f (fb\<lparr>f_next := 0, f_prev := 0\<rparr>) s) q' ys = is_queue s q' ys \<and>
         (f_next fb = 0 \<and> f_prev fb = 0 \<longrightarrow> store f (fb\<lparr>f_next := 0, f_prev := 0\<rparr>) s = s) \<and>
         dequeue_fiber f s = Inr s"
proof (intro conjI impI)
  show "ebind (queue_fiber f q s) (dequeue_fiber f) =
        Inr (store f (fb\<lparr>f_next := 0, f_prev := 0\<rparr>) s)"
    using assms by (rule queue_then_dequeue)
  from assms(1) have ff: "fibers s f = Some fb"
    by (simp add: deref_Inr)
  show "is_queue (store f (fb\<lparr>f_next := 0, f_prev := 0\<rparr>) s) q' ys = is_queue s q' ys"
    using ff assms(2) by (simp add: is_queue_def dlseg_store_unlinked)
  show "dequeue_fiber f s = Inr s"
    using assms(1,2) by (simp add: dequeue_fiber_def ebind_def)
  assume "f_next fb = 0 \<and> f_prev fb = 0"
  then have "fb\<lparr>f_next := 0, f_prev := 0\<rparr> = fb" by simp
  then show "store f (fb\<lparr>f_next := 0, f_prev := 0\<rparr>) s = s"
    using ff by (simp add: store_def map_upd_triv)
qed

theorem enqueue_dequeue_roundtrip_witness:
  "ebind (queue_fiber 0x400 RunQueue st0) (dequeue_fiber 0x400) = Inr st0 \<and>
   dequeue_fiber 0x400 st0 = Inr st0"
proof -
  have d: "deref st0 0x400 = Inr (mk_fiber 0x2300 0 0 None 0 0)"
    by (simp add: deref_def st0_def)
  have q: "queue (mk_fiber 0x2300 0 0 None 0 0) = None"
    by (simp add: mk_fiber_def)
  have w: "is_queue st0 RunQueue [0x100, 0x200]"
    by (simp add: is_queue_def st0_def mk_fiber_def)
  have l: "f_next (mk_fiber 0x2300 0 0 None 0 0) = 0 \<and> f_prev (mk_fiber 0x2300 0 0 None 0 0) = 0"
    by (simp add: mk_fiber_def)
  from enqueue_dequeue_roundtrip [OF d q w] l show ?thesis
    by simp
qed

subsection \<open>Evaluating the model\<close>

lemmas model_defs =
  deref_def modify_def store_def ebind_def rbind_def queue_fiber_def dequeue_fiber_def
  getFiberContext_def verify_stack_size_def schedule_def schedule_select_def
  schedule_switch_def swap_context_def save_context_def save_register_context_def
  restore_register_context_def fiber_to_block_def fiber_sleep_def fiber_wait_for_event_def
  scheduler_event_def scheduler_tick_def new_Fiber_def malloc_def free_def delete_Fiber_def
  release_fiber_def write_word_def create_fiber_def create_fiber_param_def
  initial_context_def initial_context_param_def
  MICROBIT_FIBER_FLAG_FOB_def MICROBIT_FIBER_FLAG_PARENT_def MICROBIT_FIBER_FLAG_CHILD_def
  MICROBIT_ID_ANY_def MICROBIT_EVT_ANY_def context_id_def context_value_def event_matches_def

lemmas example_defs =
  st0_def cfg0_def regs0_def mk_fiber_def st_fob_def st_deep_def st_single_def st_pool_def st_child_def

subsection \<open>The stack buffer\<close>

lemma grow_buffer_least:
  "unat b * 2 ^ k < 2 ^ 32 \<Longrightarrow> unat d \<le> unat b * 2 ^ k \<Longrightarrow>
   (\<forall>j<k. unat b * 2 ^ j < unat d) \<Longrightarrow> grow_buffer b d = Some (b * 2 ^ k)"
proof (induction k arbitrary: b)
  case 0
  then have "\<not> b < d" by (simp add: word_less_nat_alt)
  then show ?case by (subst grow_buffer.simps) simp
next
  case (Suc k)
  from Suc.prems(3) have "unat b * 2 ^ 0 < unat d" by blast
  then have lt: "b < d" by (simp add: word_less_nat_alt)
  have small: "2 * unat b < 2 ^ 32"
  proof -
    have "2 * unat b \<le> unat b * 2 ^ Suc k" by simp
    with Suc.prems(1) show ?thesis by linarith
  qed
  have u: "unat (push_bit 1 b) = 2 * unat b"
  proof -
    have "unat b * unat (2 :: 32 word) < 2 ^ LENGTH(32)"
      using small by simp
    then have A: "unat (b * 2) = unat b * unat (2 :: 32 word)"
      by (rule unat_mult_lem [THEN iffD1])
    have B: "push_bit 1 b = b * 2" by (simp add: push_bit_eq_mult)
    have C: "unat (2 :: 32 word) = 2" by simp
    show ?thesis unfolding B A C by (rule mult.commute)
  qed
  have e: "unat (push_bit 1 b) * 2 ^ j = unat b * 2 ^ Suc j" for j
    unfolding u by simp
  have "grow_buffer (push_bit 1 b) d = Some (push_bit 1 b * 2 ^ k)"
  proof (rule Suc.IH)
    show "unat (push_bit 1 b) * 2 ^ k < 2 ^ 32" using Suc.prems(1) by (simp only: e)
    show "unat d \<le> unat (push_bit 1 b) * 2 ^ k" using Suc.prems(2) by (simp only: e)
    show "\<forall>j<k. unat (push_bit 1 b) * 2 ^ j < unat d"
    proof (intro allI impI)
      fix j assume "j < k"
      then have "unat b * 2 ^ Suc j < unat d" using Suc.prems(3) by (meson Suc_less_eq)
      then show "unat (push_bit 1 b) * 2 ^ j < unat d" by (simp only: e)
    qed
  qed
  moreover have "push_bit 1 b * 2 ^ k = b * 2 ^ Suc k"
    by (simp add: push_bit_eq_mult)
  ultimately show ?case using lt
    by (subst grow_buffer.simps) simp
qed

lemma unat_pow2: "k < 32 \<Longrightarrow> unat (2 ^ k :: 32 word) = 2 ^ k"
proof -
  assume "k < 32"
  then have "(2::nat) ^ k < 2 ^ 32" by (rule power_strict_increasing) simp
  moreover have "(2 ^ k :: 32 word) = of_nat (2 ^ k)" by simp
  ultimately show ?thesis by (simp only: unat_of_nat) simp
qed

lemma verify_stack_size_enough:
  "deref s f = Inr fb \<Longrightarrow>
   \<not> stack_top fb - stack_bottom fb < CORTEX_M0_STACK_BASE cfg - SP (cpu s) \<Longrightarrow>
   verify_stack_size cfg f s = Some (Inr s)"
  by (simp add: verify_stack_size_def rbind_def Let_def)

lemma verify_stack_size_grow:
  assumes f: "deref s f = Inr fb"
    and small: "stack_top fb - stack_bottom fb < CORTEX_M0_STACK_BASE cfg - SP (cpu s)"
    and g: "grow_buffer (stack_top fb - stack_bottom fb) (CORTEX_M0_STACK_BASE cfg - SP (cpu s))
            = Some n"
  shows "\<exists>b. verify_stack_size cfg f s =
           Some (Inr (s\<lparr>fibers := (fibers s)(f \<mapsto> fb\<lparr>stack_bottom := b, stack_top := b + n\<rparr>),
                        alloc_next := tl (alloc_next s),
                        heap_log := heap_log s @ [Free (stack_bottom fb), Malloc n b]\<rparr>))"
proof -
  from f have f0: "f \<noteq> 0" "fibers s f = Some fb"
    by (simp_all add: deref_Inr)
  show ?thesis
  proof (cases "alloc_next s")
    case Nil
    then show ?thesis using f small g f0
      by (intro exI [of _ 0])
        (simp add: verify_stack_size_def rbind_def Let_def ebind_def modify_def deref_def
          store_def malloc_def free_def)
  next
    case (Cons a as)
    then show ?thesis using f small g f0
      by (intro exI [of _ a])
        (simp add: verify_stack_size_def rbind_def Let_def ebind_def modify_def deref_def
          store_def malloc_def free_def)
  qed
qed

lemma doubling_exists:
  assumes "b \<noteq> 0" and "b < d" and "unat d \<le> 2 ^ 31"
  shows "\<exists>k. unat b * 2 ^ k < 2 ^ 32 \<and> unat d \<le> unat b * 2 ^ k \<and>
             (\<forall>j<k. unat b * 2 ^ j < unat d)"
proof -
  define k where "k = (LEAST k. unat d \<le> unat b * 2 ^ k)"
  have "unat b \<noteq> 0"
  proof
    assume "unat b = 0"
    then have "b = 0" by (simp add: unat_eq_0)
    with assms(1) show False by simp
  qed
  then have b1: "1 \<le> unat b" by simp
  then have "1 * (2::nat) ^ 31 \<le> unat b * 2 ^ 31"
    by (rule mult_le_mono1)
  with assms(3) have "unat d \<le> unat b * 2 ^ 31" by simp
  then have P: "unat d \<le> unat b * 2 ^ k"
    unfolding k_def by (rule LeastI)
  have least: "unat b * 2 ^ j < unat d" if "j < k" for j
    using not_less_Least [of j "\<lambda>k. unat d \<le> unat b * 2 ^ k"] that
    by (simp add: k_def not_le)
  from assms(2) have "unat b < unat d" by (simp add: word_less_nat_alt)
  with P have "k \<noteq> 0" by (cases "k = 0") auto
  then obtain m where m: "k = Suc m" by (cases k) auto
  with least [of m] have "unat b * 2 ^ m < unat d" by simp
  with assms(3) have "unat b * 2 ^ m < 2 ^ 31" by simp
  then have "unat b * 2 ^ k < 2 ^ 32" by (simp add: m)
  with P least show ?thesis by blast
qed

text \<open>
  C7. When the buffer of \<open>f\<close> is at least as large as the stack is deep,
  \<open>verify_stack_size\<close> returns the state unchanged. When it is smaller, and \<open>k\<close> is the
  least number of doublings that reaches the depth, and that doubling still fits in 32
  bits, the function returns; it has freed the old buffer and then asked for one of
  \<open>bufferSize * 2 ^ k\<close> bytes, and \<open>stack_bottom\<close> is what the allocator returned and
  \<open>stack_top\<close> is \<open>bufferSize * 2 ^ k\<close> above it; nothing else in the record has changed.
  Such a \<open>k\<close> exists for every buffer that is not empty and every depth of at most
  \<open>2 ^ 31\<close> bytes, which covers every buffer the scheduler makes (their sizes are
  \<open>FIBER_STACK_SIZE\<close> doubled some number of times) and every stack the processor can
  hold.
\<close>

theorem verify_stack_size_doubling:
  assumes "deref s f = Inr fb"
    and "bufferSize = stack_top fb - stack_bottom fb"
    and "stackDepth = CORTEX_M0_STACK_BASE cfg - SP (cpu s)"
  shows "(stackDepth \<le> bufferSize \<longrightarrow> verify_stack_size cfg f s = Some (Inr s)) \<and>
         (bufferSize < stackDepth \<and> unat bufferSize * 2 ^ k < 2 ^ 32 \<and>
          unat stackDepth \<le> unat bufferSize * 2 ^ k \<and>
          (\<forall>j<k. unat bufferSize * 2 ^ j < unat stackDepth) \<longrightarrow>
          (\<exists>b s' fb'. verify_stack_size cfg f s = Some (Inr s') \<and>
             fibers s' = (fibers s)(f \<mapsto> fb') \<and>
             fb' = fb\<lparr>stack_bottom := b, stack_top := b + bufferSize * 2 ^ k\<rparr> \<and>
             stack_top fb' - stack_bottom fb' = bufferSize * 2 ^ k \<and>
             unat (bufferSize * 2 ^ k) = unat bufferSize * 2 ^ k \<and>
             heap_log s' = heap_log s @ [Free (stack_bottom fb), Malloc (bufferSize * 2 ^ k) b])) \<and>
         (bufferSize \<noteq> 0 \<and> bufferSize < stackDepth \<and> unat stackDepth \<le> 2 ^ 31 \<longrightarrow>
          (\<exists>n b s' fb'. unat bufferSize * 2 ^ n < 2 ^ 32 \<and>
             unat stackDepth \<le> unat bufferSize * 2 ^ n \<and>
             (\<forall>j<n. unat bufferSize * 2 ^ j < unat stackDepth) \<and>
             verify_stack_size cfg f s = Some (Inr s') \<and>
             fibers s' = (fibers s)(f \<mapsto> fb') \<and>
             fb' = fb\<lparr>stack_bottom := b, stack_top := b + bufferSize * 2 ^ n\<rparr> \<and>
             stack_top fb' - stack_bottom fb' = bufferSize * 2 ^ n \<and>
             unat (bufferSize * 2 ^ n) = unat bufferSize * 2 ^ n \<and>
             heap_log s' = heap_log s @ [Free (stack_bottom fb), Malloc (bufferSize * 2 ^ n) b]))"
proof -
  have grows: "\<exists>b s' fb'. verify_stack_size cfg f s = Some (Inr s') \<and>
             fibers s' = (fibers s)(f \<mapsto> fb') \<and>
             fb' = fb\<lparr>stack_bottom := b, stack_top := b + bufferSize * 2 ^ n\<rparr> \<and>
             stack_top fb' - stack_bottom fb' = bufferSize * 2 ^ n \<and>
             unat (bufferSize * 2 ^ n) = unat bufferSize * 2 ^ n \<and>
             heap_log s' = heap_log s @ [Free (stack_bottom fb), Malloc (bufferSize * 2 ^ n) b]"
    if a: "bufferSize < stackDepth \<and> unat bufferSize * 2 ^ n < 2 ^ 32 \<and>
          unat stackDepth \<le> unat bufferSize * 2 ^ n \<and>
          (\<forall>j<n. unat bufferSize * 2 ^ j < unat stackDepth)" for n
  proof -
    from a have g: "grow_buffer bufferSize stackDepth = Some (bufferSize * 2 ^ n)"
      by (intro grow_buffer_least) simp_all
    have k: "n < 32"
    proof (rule ccontr)
      assume "\<not> n < 32"
      then have "32 \<le> n" by simp
      then have "(2::nat) ^ 32 \<le> 2 ^ n" by (rule power_increasing) simp
      moreover from a have "unat bufferSize < unat stackDepth"
        by (simp add: word_less_nat_alt)
      with a have "1 \<le> unat bufferSize"
        by (cases "unat bufferSize = 0") auto
      ultimately have "1 * (2::nat) ^ 32 \<le> unat bufferSize * 2 ^ n"
        by (rule mult_le_mono [rotated])
      with a show False by simp
    qed
    then have p: "unat (2 ^ n :: 32 word) = 2 ^ n"
      by (rule unat_pow2)
    have "unat bufferSize * unat (2 ^ n :: 32 word) < 2 ^ LENGTH(32)"
      using a by (simp add: p)
    then have "unat (bufferSize * 2 ^ n) = unat bufferSize * unat (2 ^ n :: 32 word)"
      by (rule unat_mult_lem [THEN iffD1])
    then have u: "unat (bufferSize * 2 ^ n) = unat bufferSize * 2 ^ n"
      by (simp only: p)
    from verify_stack_size_grow [of s f fb cfg "bufferSize * 2 ^ n"] assms a g
    obtain b where "verify_stack_size cfg f s =
           Some (Inr (s\<lparr>fibers := (fibers s)(f \<mapsto> fb\<lparr>stack_bottom := b,
                                                      stack_top := b + bufferSize * 2 ^ n\<rparr>),
                        alloc_next := tl (alloc_next s),
                        heap_log := heap_log s @ [Free (stack_bottom fb),
                                                  Malloc (bufferSize * 2 ^ n) b]\<rparr>))"
      by auto
    then show ?thesis
      using u by (intro exI [of _ b]) simp
  qed
  have 1: "stackDepth \<le> bufferSize \<longrightarrow> verify_stack_size cfg f s = Some (Inr s)"
    using assms by (simp add: verify_stack_size_enough not_less)
  have 2: "bufferSize < stackDepth \<and> unat bufferSize * 2 ^ k < 2 ^ 32 \<and>
          unat stackDepth \<le> unat bufferSize * 2 ^ k \<and>
          (\<forall>j<k. unat bufferSize * 2 ^ j < unat stackDepth) \<longrightarrow>
          (\<exists>b s' fb'. verify_stack_size cfg f s = Some (Inr s') \<and>
             fibers s' = (fibers s)(f \<mapsto> fb') \<and>
             fb' = fb\<lparr>stack_bottom := b, stack_top := b + bufferSize * 2 ^ k\<rparr> \<and>
             stack_top fb' - stack_bottom fb' = bufferSize * 2 ^ k \<and>
             unat (bufferSize * 2 ^ k) = unat bufferSize * 2 ^ k \<and>
             heap_log s' = heap_log s @ [Free (stack_bottom fb), Malloc (bufferSize * 2 ^ k) b])"
    using grows [of k] by blast
  have 3: "bufferSize \<noteq> 0 \<and> bufferSize < stackDepth \<and> unat stackDepth \<le> 2 ^ 31 \<longrightarrow>
          (\<exists>n b s' fb'. unat bufferSize * 2 ^ n < 2 ^ 32 \<and>
             unat stackDepth \<le> unat bufferSize * 2 ^ n \<and>
             (\<forall>j<n. unat bufferSize * 2 ^ j < unat stackDepth) \<and>
             verify_stack_size cfg f s = Some (Inr s') \<and>
             fibers s' = (fibers s)(f \<mapsto> fb') \<and>
             fb' = fb\<lparr>stack_bottom := b, stack_top := b + bufferSize * 2 ^ n\<rparr> \<and>
             stack_top fb' - stack_bottom fb' = bufferSize * 2 ^ n \<and>
             unat (bufferSize * 2 ^ n) = unat bufferSize * 2 ^ n \<and>
             heap_log s' = heap_log s @ [Free (stack_bottom fb), Malloc (bufferSize * 2 ^ n) b])"
  proof
    assume h: "bufferSize \<noteq> 0 \<and> bufferSize < stackDepth \<and> unat stackDepth \<le> 2 ^ 31"
    then obtain n where n: "unat bufferSize * 2 ^ n < 2 ^ 32"
      "unat stackDepth \<le> unat bufferSize * 2 ^ n"
      "\<forall>j<n. unat bufferSize * 2 ^ j < unat stackDepth"
      using doubling_exists [of bufferSize stackDepth] by blast
    with h grows [of n] obtain b s' fb' where
      "verify_stack_size cfg f s = Some (Inr s')"
      "fibers s' = (fibers s)(f \<mapsto> fb')"
      "fb' = fb\<lparr>stack_bottom := b, stack_top := b + bufferSize * 2 ^ n\<rparr>"
      "stack_top fb' - stack_bottom fb' = bufferSize * 2 ^ n"
      "unat (bufferSize * 2 ^ n) = unat bufferSize * 2 ^ n"
      "heap_log s' = heap_log s @ [Free (stack_bottom fb), Malloc (bufferSize * 2 ^ n) b]"
      by blast
    with n show "\<exists>n b s' fb'. unat bufferSize * 2 ^ n < 2 ^ 32 \<and>
             unat stackDepth \<le> unat bufferSize * 2 ^ n \<and>
             (\<forall>j<n. unat bufferSize * 2 ^ j < unat stackDepth) \<and>
             verify_stack_size cfg f s = Some (Inr s') \<and>
             fibers s' = (fibers s)(f \<mapsto> fb') \<and>
             fb' = fb\<lparr>stack_bottom := b, stack_top := b + bufferSize * 2 ^ n\<rparr> \<and>
             stack_top fb' - stack_bottom fb' = bufferSize * 2 ^ n \<and>
             unat (bufferSize * 2 ^ n) = unat bufferSize * 2 ^ n \<and>
             heap_log s' = heap_log s @ [Free (stack_bottom fb), Malloc (bufferSize * 2 ^ n) b]"
      by (intro exI [of _ n] exI [of _ b] exI [of _ s'] exI [of _ fb'] conjI)
  qed
  from 1 2 3 show ?thesis by (intro conjI)
qed

theorem verify_stack_size_doubling_witness:
  "verify_stack_size cfg0 0x400 st0 = Some (Inr st0) \<and>
   (\<exists>b s'. verify_stack_size cfg0 0x400 st_deep = Some (Inr s') \<and>
      fibers s' = (fibers st_deep)
        (0x400 \<mapsto> (mk_fiber 0x2300 0 0 None 0 0)\<lparr>stack_bottom := b, stack_top := b + 256\<rparr>) \<and>
      heap_log s' = [Free 0x2300, Malloc 256 b])"
proof -
  have d0: "deref st0 0x400 = Inr (mk_fiber 0x2300 0 0 None 0 0)"
    by (simp add: deref_def st0_def)
  have d1: "deref st_deep 0x400 = Inr (mk_fiber 0x2300 0 0 None 0 0)"
    by (simp add: deref_def st_deep_def st0_def)
  have b: "(64 :: 32 word) = stack_top (mk_fiber 0x2300 0 0 None 0 0)
              - stack_bottom (mk_fiber 0x2300 0 0 None 0 0)"
    by (simp add: mk_fiber_def)
  have e0: "(28 :: 32 word) = CORTEX_M0_STACK_BASE cfg0 - SP (cpu st0)"
    by (simp add: example_defs)
  have e1: "(200 :: 32 word) = CORTEX_M0_STACK_BASE cfg0 - SP (cpu st_deep)"
    by (simp add: example_defs)
  have l: "\<forall>j<2. unat (64 :: 32 word) * 2 ^ j < unat (200 :: 32 word)"
  proof (intro allI impI)
    fix j :: nat
    assume "j < 2"
    then have "j = 0 \<or> j = 1" by arith
    then show "unat (64 :: 32 word) * 2 ^ j < unat (200 :: 32 word)" by auto
  qed
  from verify_stack_size_doubling [OF d0 b e0, THEN conjunct1]
  have "verify_stack_size cfg0 0x400 st0 = Some (Inr st0)"
    by simp
  moreover from verify_stack_size_doubling [OF d1 b e1, of 2, THEN conjunct2, THEN conjunct1] l
  have "\<exists>b s'. verify_stack_size cfg0 0x400 st_deep = Some (Inr s') \<and>
      fibers s' = (fibers st_deep)
        (0x400 \<mapsto> (mk_fiber 0x2300 0 0 None 0 0)\<lparr>stack_bottom := b, stack_top := b + 256\<rparr>) \<and>
      heap_log s' = heap_log st_deep @
        [Free (stack_bottom (mk_fiber 0x2300 0 0 None 0 0)), Malloc 256 b]"
    by simp
  moreover have "heap_log st_deep = []" "stack_bottom (mk_fiber 0x2300 0 0 None 0 0) = 0x2300"
    by (simp_all add: example_defs)
  ultimately show ?thesis
    by simp
qed

subsection \<open>Choosing the next fiber\<close>

lemma verify_stack_size_currentFiber:
  "verify_stack_size cfg f s = Some (Inr s') \<Longrightarrow> currentFiber s' = currentFiber s"
  by (auto simp: verify_stack_size_def rbind_def Let_def ebind_def modify_def store_def
      malloc_def free_def
      split: option.splits sum.splits prod.splits list.splits if_splits)

lemma swap_context_currentFiber:
  "swap_context a b s = Inr s' \<Longrightarrow> currentFiber s' = currentFiber s"
  by (auto simp: swap_context_def ebind_def modify_def store_def split: sum.splits)

lemma schedule_switch_currentFiber:
  "schedule_switch cfg old s = Some (Inr (ex, s')) \<Longrightarrow> currentFiber s' = currentFiber s"
  by (auto simp: schedule_switch_def rbind_def ebind_def
      dest!: verify_stack_size_currentFiber swap_context_currentFiber
      split: option.splits sum.splits if_splits)

text \<open>
  C4. When the current fiber is not in fork-on-block mode, \<open>schedule\<close> assigns to
  \<open>currentFiber\<close> the fiber the specification's rule names, and goes on to the context
  switch with that choice: the idle fiber if the run queue is empty or the data-read flag
  is set; otherwise the \<open>next\<close> of the current fiber if that fiber's queue pointer is the
  run queue (the head of the run queue when that \<open>next\<close> is null); otherwise the head of
  the run queue. Every run of \<open>schedule\<close> that returns or switches ends with that fiber as
  the current one.
\<close>

theorem schedule_runnable_selection:
  assumes "deref s (currentFiber s) = Inr cb" and "flags cb AND MICROBIT_FIBER_FLAG_FOB = 0"
  shows "schedule_select cfg s = Inr (s\<lparr>currentFiber := spec_runnable cfg s\<rparr>) \<and>
         schedule cfg s =
           schedule_switch cfg (currentFiber s) (s\<lparr>currentFiber := spec_runnable cfg s\<rparr>) \<and>
         (\<forall>ex s'. schedule cfg s = Some (Inr (ex, s')) \<longrightarrow>
                  currentFiber s' = spec_runnable cfg s)"
proof -
  from assms(1) have cur: "currentFiber s \<noteq> 0" "fibers s (currentFiber s) = Some cb"
    by (simp_all add: deref_Inr)
  have sel: "schedule_select cfg s = Inr (s\<lparr>currentFiber := spec_runnable cfg s\<rparr>)"
    using assms(1) cur by (simp add: schedule_select_def spec_runnable_def ebind_def)
  have sch: "schedule cfg s =
      schedule_switch cfg (currentFiber s) (s\<lparr>currentFiber := spec_runnable cfg s\<rparr>)"
    using assms sel by (simp add: schedule_def rbind_def Let_def)
  show ?thesis using sel sch by (auto dest: schedule_switch_currentFiber)
qed

theorem schedule_runnable_selection_witness:
  "spec_runnable cfg0 st0 = 0x200 \<and>
   (\<exists>s'. schedule cfg0 st0 = Some (Inr (Switched, s')) \<and> currentFiber s' = 0x200)"
proof -
  have d: "deref st0 (currentFiber st0) = Inr (mk_fiber 0x2000 0 0 (Some RunQueue) 0x200 0)"
    by (simp add: deref_def st0_def)
  have f: "flags (mk_fiber 0x2000 0 0 (Some RunQueue) 0x200 0) AND MICROBIT_FIBER_FLAG_FOB = 0"
    by (simp add: mk_fiber_def)
  have r: "spec_runnable cfg0 st0 = 0x200"
    by (simp add: spec_runnable_def example_defs)
  have "\<exists>s'. schedule cfg0 st0 = Some (Inr (Switched, s'))"
    by (simp add: model_defs example_defs)
  with schedule_runnable_selection [OF d f, of cfg0] r show ?thesis
    by auto
qed

text \<open>
  C9. When the run queue holds the current fiber and nothing else, that fiber is not in
  fork-on-block mode and the data-read flag is clear, \<open>schedule\<close> returns to its caller
  and the whole state (the current fiber, every list head, every record with its saved
  context and its stack fields, the allocator) is the one it was called in.
\<close>

theorem schedule_single_runnable:
  assumes q: "is_queue s RunQueue [currentFiber s]"
    and cb: "deref s (currentFiber s) = Inr cb"
    and fob: "flags cb AND MICROBIT_FIBER_FLAG_FOB = 0"
    and dr: "fiber_flags s AND MICROBIT_FLAG_DATA_READ cfg = 0"
  shows "schedule cfg s = Some (Inr (Returned, s))"
proof -
  from cb have cur: "currentFiber s \<noteq> 0" "fibers s (currentFiber s) = Some cb"
    by (simp_all add: deref_Inr)
  from q cur have l: "runQueue s = currentFiber s" "queue cb = Some RunQueue" "f_next cb = 0"
    by (simp_all add: is_queue_def)
  have "s\<lparr>currentFiber := currentFiber s\<rparr> = s" by simp
  then show ?thesis using cb fob dr cur l
    by (simp add: schedule_def schedule_select_def schedule_switch_def rbind_def ebind_def
        Let_def)
qed

theorem schedule_single_runnable_witness:
  "schedule cfg0 st_single = Some (Inr (Returned, st_single))"
proof -
  have q: "is_queue st_single RunQueue [currentFiber st_single]"
    by (simp add: is_queue_def example_defs)
  have d: "deref st_single (currentFiber st_single) = Inr (mk_fiber 0x2000 0 0 (Some RunQueue) 0 0)"
    by (simp add: deref_def example_defs)
  have f: "flags (mk_fiber 0x2000 0 0 (Some RunQueue) 0 0) AND MICROBIT_FIBER_FLAG_FOB = 0"
    by (simp add: mk_fiber_def)
  have r: "fiber_flags st_single AND MICROBIT_FLAG_DATA_READ cfg0 = 0"
    by (simp add: example_defs)
  from schedule_single_runnable [OF q d f r] show ?thesis .
qed

subsection \<open>The event filter\<close>

text \<open>
  C1. The code does not recover the filter it stored. The current fiber of \<open>st0\<close> waits
  for \<open>id = 5\<close>, \<open>value = 7\<close>: the context word is \<open>0x00070005\<close>, and \<open>scheduler_event\<close>
  reads \<open>value = 0\<close> out of it, which is the match-any sentinel. The event
  \<open>{source = 5, value = 9}\<close> therefore moves the fiber from the wait queue to the run
  queue, although its value is neither 7 nor the sentinel. The identifier loses its high
  byte in the same way: \<open>0x105\<close> is read back as \<open>5\<close>.
\<close>

theorem wait_for_event_filter_lost:
  "context_value (push_bit 16 (ucast (7 :: 16 word)) OR ucast (5 :: 16 word)) = 0 \<and>
   context_id (push_bit 16 (ucast (7 :: 16 word)) OR ucast (0x105 :: 16 word)) = 5 \<and>
   (\<exists>s1 s2 fb. fiber_wait_for_event cfg0 5 7 st0 = Some (Inr (Switched, s1)) \<and>
      fibers s1 0x100 = Some fb \<and> f_context fb = 0x00070005 \<and>
      is_queue s1 WaitQueue [0x100] \<and> is_queue s1 RunQueue [0x200] \<and>
      scheduler_event \<lparr>source = 5, evt_value = 9\<rparr> s1 = Some (Inr s2) \<and>
      is_queue s2 WaitQueue [] \<and> is_queue s2 RunQueue [0x100, 0x200])"
  by (simp add: model_defs example_defs is_queue_def event_walk.simps)

subsection \<open>Blocking in fork-on-block mode without memory\<close>

text \<open>
  C2. The code faults. In \<open>st_fob\<close> the current fiber is in fork-on-block mode, the pool
  is empty and the allocator has nothing to give, so \<open>getFiberContext\<close> returns \<open>NULL\<close>
  and \<open>fiber_sleep\<close> blocks the current fiber itself; the \<open>schedule\<close> it then calls still
  finds the flag set and reads \<open>forkedFiber\<close>, which is \<open>NULL\<close>.
\<close>

theorem fiber_sleep_fork_out_of_memory:
  "getFiberContext cfg0 st_fob = Inr (0, st_fob) \<and>
   fiber_sleep cfg0 10 st_fob = Some (Inl NullPointer) \<and>
   fiber_wait_for_event cfg0 5 7 st_fob = Some (Inl NullPointer)"
  by (simp add: model_defs example_defs)

subsection \<open>What the queue primitives leave alone\<close>

lemma unlinked_simps [simp]:
  "tcb (unlinked fb) = tcb fb" "stack_bottom (unlinked fb) = stack_bottom fb"
  "stack_top (unlinked fb) = stack_top fb" "f_context (unlinked fb) = f_context fb"
  "flags (unlinked fb) = flags fb"
  by (simp_all add: unlinked_def)

lemma unlinked_update [simp]:
  "unlinked (fb\<lparr>f_next := n\<rparr>) = unlinked fb"
  "unlinked (fb\<lparr>f_prev := p\<rparr>) = unlinked fb"
  "unlinked (fb\<lparr>queue := q\<rparr>) = unlinked fb"
  by (simp_all add: unlinked_def)

lemma erase_links_set_queue_head [simp]:
  "erase_links (set_queue_head q p s) = erase_links s"
  by (cases q) (simp_all add: erase_links_def)

lemma erase_links_fields:
  assumes "erase_links s' = erase_links s"
  shows "currentFiber s' = currentFiber s" "forkedFiber s' = forkedFiber s" "idle s' = idle s"
    "emptyContext s' = emptyContext s" "ticks s' = ticks s" "fiber_flags s' = fiber_flags s"
    "cpu s' = cpu s" "mem s' = mem s" "alloc_next s' = alloc_next s" "heap_log s' = heap_log s"
    "map_option unlinked (fibers s' x) = map_option unlinked (fibers s x)"
proof -
  have a: "g (erase_links s') = g (erase_links s)" for g :: "sched \<Rightarrow> 'a"
    using assms by simp
  show "currentFiber s' = currentFiber s" using a [of currentFiber] by (simp add: erase_links_def)
  show "forkedFiber s' = forkedFiber s" using a [of forkedFiber] by (simp add: erase_links_def)
  show "idle s' = idle s" using a [of idle] by (simp add: erase_links_def)
  show "emptyContext s' = emptyContext s" using a [of emptyContext] by (simp add: erase_links_def)
  show "ticks s' = ticks s" using a [of ticks] by (simp add: erase_links_def)
  show "fiber_flags s' = fiber_flags s" using a [of fiber_flags] by (simp add: erase_links_def)
  show "cpu s' = cpu s" using a [of cpu] by (simp add: erase_links_def)
  show "mem s' = mem s" using a [of mem] by (simp add: erase_links_def)
  show "alloc_next s' = alloc_next s" using a [of alloc_next] by (simp add: erase_links_def)
  show "heap_log s' = heap_log s" using a [of heap_log] by (simp add: erase_links_def)
  show "map_option unlinked (fibers s' x) = map_option unlinked (fibers s x)"
    using a [of "\<lambda>t. fibers t x"] by (simp add: erase_links_def)
qed

lemma erase_links_fiber:
  assumes "erase_links s' = erase_links s" and "fibers s x = Some fb"
  shows "\<exists>fb'. fibers s' x = Some fb' \<and> unlinked fb' = unlinked fb"
  using erase_links_fields(11) [OF assms(1), of x] assms(2) by (cases "fibers s' x") auto

lemma erase_links_store:
  "fibers s p = Some fb \<Longrightarrow> unlinked fb' = unlinked fb \<Longrightarrow>
   erase_links (store p fb' s) = erase_links s"
  by (auto simp: erase_links_def store_def fun_eq_iff)

lemma modify_links_erase:
  assumes "modify p g s = Inr s'" and "\<And>fb. unlinked (g fb) = unlinked fb"
  shows "erase_links s' = erase_links s"
  using assms
  by (auto simp: modify_def ebind_def deref_def erase_links_store split: if_splits option.splits)

lemma queue_fiber_erase:
  assumes "queue_fiber f q s = Inr s'" shows "erase_links s' = erase_links s"
proof -
  from assms obtain s1 s2 where
    1: "modify f (\<lambda>fb. fb\<lparr>queue := Some q, f_next := queue_head q s, f_prev := 0\<rparr>) s = Inr s1"
    and 2: "(if queue_head q s1 \<noteq> 0 then modify (queue_head q s1) (\<lambda>hb. hb\<lparr>f_prev := f\<rparr>) s1
             else Inr s1) = Inr s2"
    and 3: "s' = set_queue_head q f s2"
    by (auto simp: queue_fiber_def ebind_def split: sum.splits)
  from 1 have "erase_links s1 = erase_links s" by (rule modify_links_erase) simp
  moreover from 2 have "erase_links s2 = erase_links s1"
    by (auto split: if_splits elim!: modify_links_erase)
  ultimately show ?thesis using 3 by simp
qed

lemma ebind_Inr_iff: "ebind m k = Inr y \<longleftrightarrow> (\<exists>x. m = Inr x \<and> k x = Inr y)"
  by (cases m) (simp_all add: ebind_def)

lemma rbind_Some_Inr_iff:
  "rbind m k = Some (Inr y) \<longleftrightarrow> (\<exists>x. m = Some (Inr x) \<and> k x = Some (Inr y))"
  by (cases m) (auto simp: rbind_def split: sum.splits)

text \<open>The steps of a \<open>dequeue_fiber\<close> that returns.\<close>

lemma dequeue_fiber_steps:
  assumes "dequeue_fiber f s = Inr s'"
  obtains fb where "deref s f = Inr fb" "queue fb = None" "s' = s"
  | fb q s1 fb1 s2 where "deref s f = Inr fb" "queue fb = Some q"
      "(if f_prev fb \<noteq> 0 then modify (f_prev fb) (\<lambda>pb. pb\<lparr>f_next := f_next fb\<rparr>) s
        else Inr (set_queue_head q (f_next fb) s)) = Inr s1"
      "deref s1 f = Inr fb1"
      "(if f_next fb1 \<noteq> 0 then modify (f_next fb1) (\<lambda>nb. nb\<lparr>f_prev := f_prev fb1\<rparr>) s1
        else Inr s1) = Inr s2"
      "modify f (\<lambda>fb2. fb2\<lparr>f_next := 0, f_prev := 0, queue := None\<rparr>) s2 = Inr s'"
proof -
  from assms obtain fb where fb: "deref s f = Inr fb"
    and r: "(case queue fb of
         None \<Rightarrow> Inr s
       | Some q \<Rightarrow>
           ebind (if f_prev fb \<noteq> 0
                  then modify (f_prev fb) (\<lambda>pb. pb\<lparr>f_next := f_next fb\<rparr>) s
                  else Inr (set_queue_head q (f_next fb) s))
             (\<lambda>s1. ebind (deref s1 f) (\<lambda>fb1.
                ebind (if f_next fb1 \<noteq> 0
                       then modify (f_next fb1) (\<lambda>nb. nb\<lparr>f_prev := f_prev fb1\<rparr>) s1
                       else Inr s1)
                  (\<lambda>s2. modify f (\<lambda>fb2. fb2\<lparr>f_next := 0, f_prev := 0, queue := None\<rparr>) s2)))) = Inr s'"
    unfolding dequeue_fiber_def ebind_Inr_iff by blast
  show thesis
  proof (cases "queue fb")
    case None
    with r have "s' = s" by simp
    with fb None show thesis by (rule that(1))
  next
    case (Some q)
    with r have "ebind (if f_prev fb \<noteq> 0
                  then modify (f_prev fb) (\<lambda>pb. pb\<lparr>f_next := f_next fb\<rparr>) s
                  else Inr (set_queue_head q (f_next fb) s))
             (\<lambda>s1. ebind (deref s1 f) (\<lambda>fb1.
                ebind (if f_next fb1 \<noteq> 0
                       then modify (f_next fb1) (\<lambda>nb. nb\<lparr>f_prev := f_prev fb1\<rparr>) s1
                       else Inr s1)
                  (\<lambda>s2. modify f (\<lambda>fb2. fb2\<lparr>f_next := 0, f_prev := 0, queue := None\<rparr>) s2))) = Inr s'"
      by simp
    then obtain s1 fb1 s2 where
      "(if f_prev fb \<noteq> 0 then modify (f_prev fb) (\<lambda>pb. pb\<lparr>f_next := f_next fb\<rparr>) s
        else Inr (set_queue_head q (f_next fb) s)) = Inr s1"
      "deref s1 f = Inr fb1"
      "(if f_next fb1 \<noteq> 0 then modify (f_next fb1) (\<lambda>nb. nb\<lparr>f_prev := f_prev fb1\<rparr>) s1
        else Inr s1) = Inr s2"
      "modify f (\<lambda>fb2. fb2\<lparr>f_next := 0, f_prev := 0, queue := None\<rparr>) s2 = Inr s'"
      unfolding ebind_Inr_iff by blast
    with fb Some show thesis by (rule that(2))
  qed
qed

lemma dequeue_fiber_erase:
  assumes "dequeue_fiber f s = Inr s'" shows "erase_links s' = erase_links s"
  using assms
proof (cases rule: dequeue_fiber_steps)
  case (1 fb)
  then show ?thesis by simp
next
  case (2 fb q s1 fb1 s2)
  from 2(3) have "erase_links s1 = erase_links s"
    by (auto split: if_splits elim!: modify_links_erase)
  moreover from 2(5) have "erase_links s2 = erase_links s1"
    by (auto split: if_splits elim!: modify_links_erase)
  moreover from 2(6) have "erase_links s' = erase_links s2"
    by (rule modify_links_erase) simp
  ultimately show ?thesis by simp
qed

subsection \<open>Queues as lists: structure\<close>

lemma dlseg_cong:
  assumes "\<And>x. x \<in> set xs \<Longrightarrow> fibers s' x = fibers s x"
  shows "dlseg s' q p h xs e = dlseg s q p h xs e"
  using assms by (induction xs arbitrary: p h) (auto split: option.splits)

lemma dlseg_links_cong:
  assumes "\<And>x. x \<in> set xs \<Longrightarrow>
             map_option (\<lambda>fb. (queue fb, f_next fb, f_prev fb)) (fibers s' x) =
             map_option (\<lambda>fb. (queue fb, f_next fb, f_prev fb)) (fibers s x)"
  shows "dlseg s' q p h xs e = dlseg s q p h xs e"
  using assms
proof (induction xs arbitrary: p h)
  case Nil
  show ?case by simp
next
  case (Cons x xs)
  have r: "dlseg s' q x n xs e = dlseg s q x n xs e" for n
    by (rule Cons.IH) (simp add: Cons.prems)
  from Cons.prems [of x] show ?case
    by (cases "fibers s x"; cases "fibers s' x") (auto simp: r)
qed

lemma dlseg_mem:
  "dlseg s q p h xs e \<Longrightarrow> x \<in> set xs \<Longrightarrow>
   x \<noteq> 0 \<and> (\<exists>fb. fibers s x = Some fb \<and> queue fb = Some q)"
  by (induction xs arbitrary: p h) (auto split: option.splits)

lemma dlseg_append:
  "dlseg s q p h (as @ bs) e \<longleftrightarrow>
   (\<exists>m. dlseg s q p h as m \<and> dlseg s q (last (p # as)) m bs e)"
  by (induction as arbitrary: p h) (auto split: option.splits)

lemma dlseg_unique:
  "dlseg s q p h xs 0 \<Longrightarrow> dlseg s q p' h ys 0 \<Longrightarrow> xs = ys"
proof (induction xs arbitrary: p p' h ys)
  case Nil
  then show ?case by (cases ys) auto
next
  case (Cons x xs)
  then show ?case by (cases ys) (auto split: option.splits)
qed

lemma dlseg_hd_notin_tl:
  assumes "dlseg s q p h (x # xs) 0" shows "x \<notin> set xs"
proof
  assume "x \<in> set xs"
  then obtain as bs where xs: "xs = as @ x # bs" by (auto dest: split_list)
  with assms have "dlseg s q p h ((x # as) @ x # bs) 0" by simp
  then obtain m where "dlseg s q (last (p # x # as)) m (x # bs) 0"
    unfolding dlseg_append by blast
  then have 1: "dlseg s q (last (p # x # as)) x (x # bs) 0" by simp
  from assms have 2: "dlseg s q p x (x # xs) 0" by simp
  from 2 1 have "x # xs = x # bs" by (rule dlseg_unique)
  with xs show False by simp
qed

lemma dlseg_distinct: "dlseg s q p h xs 0 \<Longrightarrow> distinct xs"
proof (induction xs arbitrary: p h)
  case Nil
  show ?case by simp
next
  case (Cons x xs)
  from Cons.prems have "x \<notin> set xs" by (rule dlseg_hd_notin_tl)
  moreover from Cons.prems have "distinct xs"
    by (auto split: option.splits intro: Cons.IH)
  ultimately show ?case by simp
qed

lemma is_queue_distinct: "is_queue s q xs \<Longrightarrow> distinct xs"
  unfolding is_queue_def by (rule dlseg_distinct)

lemma is_queue_mem:
  "is_queue s q xs \<Longrightarrow> x \<in> set xs \<Longrightarrow>
   x \<noteq> 0 \<and> (\<exists>fb. fibers s x = Some fb \<and> queue fb = Some q)"
  unfolding is_queue_def by (rule dlseg_mem)

lemma is_queue_disjoint:
  assumes "is_queue s q xs" and "is_queue s q' ys" and "q \<noteq> q'"
  shows "set xs \<inter> set ys = {}"
proof -
  have False if "x \<in> set xs" "x \<in> set ys" for x
    using is_queue_mem [OF assms(1) that(1)] is_queue_mem [OF assms(2) that(2)] assms(3)
    by auto
  then show ?thesis by auto
qed

lemma is_queue_unique: "is_queue s q xs \<Longrightarrow> is_queue s q ys \<Longrightarrow> xs = ys"
  unfolding is_queue_def by (rule dlseg_unique)

text \<open>The links of a record in the middle of a queue.\<close>

lemma dlseg_middle:
  assumes "dlseg s q p h (as @ f # bs) 0"
  obtains fb where "fibers s f = Some fb" "f \<noteq> 0" "queue fb = Some q"
    "f_prev fb = last (p # as)" "f_next fb = hd (bs @ [0])"
    "dlseg s q p h as f" "dlseg s q f (f_next fb) bs 0"
proof -
  from assms obtain m where m: "dlseg s q p h as m" "dlseg s q (last (p # as)) m (f # bs) 0"
    unfolding dlseg_append by blast
  then obtain fb where fb: "m = f" "f \<noteq> 0" "fibers s f = Some fb" "f_prev fb = last (p # as)"
    "queue fb = Some q" "dlseg s q f (f_next fb) bs 0"
    by (auto split: option.splits)
  from fb(6) have "f_next fb = hd (bs @ [0])" by (cases bs) auto
  with m fb show thesis by (intro that [of fb]) auto
qed

subsection \<open>Queues as lists: the two primitives\<close>

lemma queue_fiber_queue:
  assumes q: "is_queue s q xs" and f: "fibers s f = Some fb" "f \<noteq> 0" "f \<notin> set xs"
  shows "\<exists>s'. queue_fiber f q s = Inr s' \<and> is_queue s' q (f # xs) \<and>
           (\<forall>x. x \<notin> set (f # xs) \<longrightarrow> fibers s' x = fibers s x) \<and>
           (\<forall>q'. q' \<noteq> q \<longrightarrow> queue_head q' s' = queue_head q' s) \<and>
           fibers s' f = Some (fb\<lparr>queue := Some q, f_next := queue_head q s, f_prev := 0\<rparr>)"
proof (cases xs)
  case Nil
  with q have h0: "queue_head q s = 0" by (simp add: is_queue_def)
  let ?s' = "set_queue_head q f (store f (fb\<lparr>queue := Some q, f_next := 0, f_prev := 0\<rparr>) s)"
  have "queue_fiber f q s = Inr ?s'"
    using f h0 by (simp add: queue_fiber_def modify_def deref_def ebind_def)
  moreover have "is_queue ?s' q (f # xs)"
    using f Nil by (simp add: is_queue_def store_def)
  moreover have "\<forall>x. x \<notin> set (f # xs) \<longrightarrow> fibers ?s' x = fibers s x"
    by (simp add: store_def)
  moreover have "fibers ?s' f = Some (fb\<lparr>queue := Some q, f_next := queue_head q s, f_prev := 0\<rparr>)"
    using h0 by (simp add: store_def)
  ultimately show ?thesis by (intro exI [of _ ?s']) simp
next
  case (Cons h t)
  with q obtain hb where h: "queue_head q s = h" "h \<noteq> 0" "fibers s h = Some hb"
    "f_prev hb = 0" "queue hb = Some q" "dlseg s q h (f_next hb) t 0"
    by (auto simp: is_queue_def split: option.splits)
  from f Cons have hf: "h \<noteq> f" by auto
  from q Cons have ht: "h \<notin> set t" by (auto dest: is_queue_distinct)
  let ?s' = "set_queue_head q f
      (store h (hb\<lparr>f_prev := f\<rparr>) (store f (fb\<lparr>queue := Some q, f_next := h, f_prev := 0\<rparr>) s))"
  have "queue_fiber f q s = Inr ?s'"
    using f h hf by (simp add: queue_fiber_def modify_def deref_def ebind_def store_def)
  moreover have "is_queue ?s' q (f # xs)"
  proof -
    have "dlseg ?s' q h (f_next hb) t 0 = dlseg s q h (f_next hb) t 0"
      using f(3) Cons ht by (intro dlseg_cong) (auto simp: store_def)
    then show ?thesis
      using f h hf Cons by (simp add: is_queue_def store_def)
  qed
  moreover have "\<forall>x. x \<notin> set (f # xs) \<longrightarrow> fibers ?s' x = fibers s x"
    using Cons by (simp add: store_def)
  moreover have "fibers ?s' f = Some (fb\<lparr>queue := Some q, f_next := queue_head q s, f_prev := 0\<rparr>)"
    using h hf by (simp add: store_def)
  ultimately show ?thesis by (intro exI [of _ ?s']) simp
qed

lemma dlseg_store_other:
  "x \<notin> set xs \<Longrightarrow> dlseg (store x fb s) q p h xs e = dlseg s q p h xs e"
  by (rule dlseg_cong) (auto simp: store_def)

lemma dlseg_snoc_retarget:
  assumes "dlseg s q p h (as @ [x]) e" and "fibers s x = Some xb"
    and "\<And>y. y \<in> set as \<Longrightarrow> fibers s' y = fibers s y"
    and "fibers s' x = Some (xb\<lparr>f_next := e'\<rparr>)" and "x \<notin> set as"
  shows "dlseg s' q p h (as @ [x]) e'"
proof -
  from assms(1) obtain m where m: "dlseg s q p h as m" "dlseg s q (last (p # as)) m [x] e"
    unfolding dlseg_append by blast
  from m(1) have "dlseg s' q p h as m"
    using assms(3) by (simp add: dlseg_cong [of as s' s])
  moreover from m(2) assms(2,4) have "dlseg s' q (last (p # as)) m [x] e'"
    by simp
  ultimately show ?thesis unfolding dlseg_append by blast
qed

lemma dequeue_fiber_queue:
  assumes q: "is_queue s q (as @ f # bs)"
  shows "\<exists>s' fb. dequeue_fiber f s = Inr s' \<and> is_queue s' q (as @ bs) \<and>
           (\<forall>x. x \<notin> set (as @ f # bs) \<longrightarrow> fibers s' x = fibers s x) \<and>
           (\<forall>q'. q' \<noteq> q \<longrightarrow> queue_head q' s' = queue_head q' s) \<and>
           fibers s f = Some fb \<and>
           fibers s' f = Some (fb\<lparr>f_next := 0, f_prev := 0, queue := None\<rparr>)"
proof -
  from q have d: "distinct (as @ f # bs)" by (rule is_queue_distinct)
  from q obtain fb where fb: "fibers s f = Some fb" "f \<noteq> 0" "queue fb = Some q"
    "f_prev fb = last (0 # as)" "f_next fb = hd (bs @ [0])"
    "dlseg s q 0 (queue_head q s) as f" "dlseg s q f (f_next fb) bs 0"
    unfolding is_queue_def by (rule dlseg_middle)
  define pv where "pv = f_prev fb"
  define nx where "nx = f_next fb"
  have nz: "x \<noteq> 0" if "x \<in> set (as @ f # bs)" for x
    using is_queue_mem [OF q that] by simp
  have pv: "pv = 0 \<longleftrightarrow> as = []"
    using fb(4) nz [of "last as"] by (cases as rule: rev_cases) (auto simp: pv_def)
  have nxz: "nx = 0 \<longleftrightarrow> bs = []"
    using fb(5) nz [of "hd bs"] by (cases bs) (auto simp: nx_def)
  \<comment> \<open>first statement: the predecessor's next, or the head\<close>
  obtain s1 where s1: "(if f_prev fb \<noteq> 0
                        then modify (f_prev fb) (\<lambda>pb. pb\<lparr>f_next := f_next fb\<rparr>) s
                        else Inr (set_queue_head q (f_next fb) s)) = Inr s1"
    and s1f: "fibers s1 f = Some fb"
    and s1a: "dlseg s1 q 0 (queue_head q s1) as nx"
    and s1o: "\<forall>x. x \<notin> set as \<longrightarrow> fibers s1 x = fibers s x"
    and s1h: "\<forall>q'. q' \<noteq> q \<longrightarrow> queue_head q' s1 = queue_head q' s"
  proof (cases as rule: rev_cases)
    case Nil
    with pv have "f_prev fb = 0" by (simp add: pv_def)
    with Nil fb show ?thesis
      by (intro that [of "set_queue_head q (f_next fb) s"]) (simp_all add: nx_def)
  next
    case (snoc as' p)
    with fb(4) have p: "f_prev fb = p" by simp
    from snoc d have pd: "p \<noteq> f" "p \<notin> set as'" by auto
    from snoc q obtain pb where pb: "fibers s p = Some pb" "p \<noteq> 0"
      using is_queue_mem [OF q, of p] by auto
    let ?s1 = "store p (pb\<lparr>f_next := f_next fb\<rparr>) s"
    have "dlseg ?s1 q 0 (queue_head q s) (as' @ [p]) nx"
      using fb(6) [unfolded snoc] pb(1) _ _ pd(2)
      by (rule dlseg_snoc_retarget) (use pd in \<open>auto simp: store_def nx_def\<close>)
    with snoc p pb pd fb show ?thesis
      by (intro that [of ?s1]) (auto simp: modify_def deref_def ebind_def store_def)
  qed
  \<comment> \<open>second statement: the successor's prev\<close>
  from s1f fb(2) have d1: "deref s1 f = Inr fb" by (simp add: deref_def)
  obtain s2 where s2: "(if f_next fb \<noteq> 0
                        then modify (f_next fb) (\<lambda>nb. nb\<lparr>f_prev := f_prev fb\<rparr>) s1
                        else Inr s1) = Inr s2"
    and s2f: "fibers s2 f = Some fb"
    and s2a: "dlseg s2 q 0 (queue_head q s2) as nx"
    and s2b: "dlseg s2 q pv nx bs 0"
    and s2o: "\<forall>x. x \<notin> set (as @ bs) \<longrightarrow> fibers s2 x = fibers s x"
    and s2h: "\<forall>q'. q' \<noteq> q \<longrightarrow> queue_head q' s2 = queue_head q' s"
  proof (cases bs)
    case Nil
    with nxz have "f_next fb = 0" by (simp add: nx_def)
    with Nil s1f s1a s1o s1h show ?thesis
      by (intro that [of s1]) (simp_all add: nx_def)
  next
    case (Cons n bs')
    with fb(5) have n: "f_next fb = n" by simp
    from Cons d have nd: "n \<noteq> f" "n \<notin> set as" "n \<notin> set bs'" by auto
    from fb(7) n Cons obtain nb where nb: "fibers s n = Some nb" "n \<noteq> 0" "queue nb = Some q"
      "dlseg s q n (f_next nb) bs' 0"
      by (auto split: option.splits)
    from nb(1) nd s1o have nb1: "fibers s1 n = Some nb" by simp
    let ?s2 = "store n (nb\<lparr>f_prev := f_prev fb\<rparr>) s1"
    have a: "dlseg ?s2 q 0 (queue_head q ?s2) as nx = dlseg s1 q 0 (queue_head q s1) as nx"
      using nd by (simp add: dlseg_store_other)
    have "dlseg ?s2 q n (f_next nb) bs' 0 = dlseg s q n (f_next nb) bs' 0"
    proof (rule dlseg_cong)
      fix x assume "x \<in> set bs'"
      with d Cons nd have "x \<notin> set as" "x \<noteq> n" by auto
      with s1o show "fibers ?s2 x = fibers s x" by (simp add: store_def)
    qed
    with nb have b: "dlseg ?s2 q pv nx bs 0"
      by (simp add: Cons nx_def pv_def n store_def)
    have o: "\<forall>x. x \<notin> set (as @ bs) \<longrightarrow> fibers ?s2 x = fibers s x"
      using s1o Cons by (simp add: store_def)
    from n nb1 nb nd s1f s1a s1h a b o show ?thesis
      by (intro that [of ?s2]) (auto simp: modify_def deref_def ebind_def store_def)
  qed
  \<comment> \<open>third statement: the record itself\<close>
  let ?s' = "store f (fb\<lparr>f_next := 0, f_prev := 0, queue := None\<rparr>) s2"
  from d have fas: "f \<notin> set as" "f \<notin> set bs" by auto
  have "dequeue_fiber f s = Inr ?s'"
    using fb s1 d1 s2 s2f
    by (simp add: dequeue_fiber_def ebind_def deref_def modify_def)
  moreover have "is_queue ?s' q (as @ bs)"
  proof -
    have "dlseg ?s' q 0 (queue_head q ?s') as nx = dlseg s2 q 0 (queue_head q s2) as nx"
      using fas by (simp add: dlseg_store_other)
    moreover have "dlseg ?s' q pv nx bs 0 = dlseg s2 q pv nx bs 0"
      using fas by (simp add: dlseg_store_other)
    moreover have "last (0 # as) = pv" using fb(4) by (simp add: pv_def)
    ultimately show ?thesis
      using s2a s2b unfolding is_queue_def dlseg_append by auto
  qed
  moreover have "\<forall>x. x \<notin> set (as @ f # bs) \<longrightarrow> fibers ?s' x = fibers s x"
    using s2o by (simp add: store_def)
  moreover have "\<forall>q'. q' \<noteq> q \<longrightarrow> queue_head q' ?s' = queue_head q' s"
    using s2h by simp
  moreover have "fibers ?s' f = Some (fb\<lparr>f_next := 0, f_prev := 0, queue := None\<rparr>)"
    by (simp add: store_def)
  ultimately show ?thesis using fb(1) by blast
qed

subsection \<open>Moving a record between queues\<close>

lemma is_queue_head: "is_queue s q xs \<Longrightarrow> queue_head q s = hd (xs @ [0])"
  by (cases xs) (auto simp: is_queue_def)

lemma is_queue_frame:
  assumes "is_queue s q ys" and "\<And>x. x \<in> set ys \<Longrightarrow> fibers s' x = fibers s x"
    and "queue_head q s' = queue_head q s"
  shows "is_queue s' q ys"
  using assms by (simp add: is_queue_def dlseg_cong [of ys s' s])

lemma is_queue_notin:
  "is_queue s q xs \<Longrightarrow> fibers s f = Some fb \<Longrightarrow> queue fb \<noteq> Some q \<Longrightarrow> f \<notin> set xs"
  by (auto dest: is_queue_mem)

lemma move_fiber:
  assumes q: "is_queue s q (as @ f # bs)" and q2: "is_queue s q2 ys" and ne: "q2 \<noteq> q"
  shows "\<exists>s'. ebind (dequeue_fiber f s) (queue_fiber f q2) = Inr s' \<and>
           is_queue s' q (as @ bs) \<and> is_queue s' q2 (f # ys) \<and>
           (\<forall>q3 zs. q3 \<noteq> q \<longrightarrow> q3 \<noteq> q2 \<longrightarrow> is_queue s q3 zs \<longrightarrow> is_queue s' q3 zs) \<and>
           erase_links s' = erase_links s"
proof -
  from dequeue_fiber_queue [OF q] obtain s1 fb where
    s1: "dequeue_fiber f s = Inr s1" "is_queue s1 q (as @ bs)"
      "\<forall>x. x \<notin> set (as @ f # bs) \<longrightarrow> fibers s1 x = fibers s x"
      "\<forall>q'. q' \<noteq> q \<longrightarrow> queue_head q' s1 = queue_head q' s"
      "fibers s f = Some fb"
      "fibers s1 f = Some (fb\<lparr>f_next := 0, f_prev := 0, queue := None\<rparr>)"
    by blast
  have other1: "is_queue s1 q3 zs" if "q3 \<noteq> q" "is_queue s q3 zs" for q3 zs
  proof (rule is_queue_frame [OF that(2)])
    fix x assume "x \<in> set zs"
    with is_queue_disjoint [OF q that(2)] that(1) have "x \<notin> set (as @ f # bs)" by auto
    with s1(3) show "fibers s1 x = fibers s x" by simp
  next
    from s1(4) that(1) show "queue_head q3 s1 = queue_head q3 s" by simp
  qed
  from other1 [OF ne q2] have q2': "is_queue s1 q2 ys" .
  have f0: "f \<noteq> 0" using is_queue_mem [OF q, of f] by simp
  have fn: "f \<notin> set ys"
    using q2' s1(6) by (rule is_queue_notin) simp
  from queue_fiber_queue [OF q2' s1(6) f0 fn] obtain s' where
    s': "queue_fiber f q2 s1 = Inr s'" "is_queue s' q2 (f # ys)"
      "\<forall>x. x \<notin> set (f # ys) \<longrightarrow> fibers s' x = fibers s1 x"
      "\<forall>q'. q' \<noteq> q2 \<longrightarrow> queue_head q' s' = queue_head q' s1"
    by blast
  have fq: "f \<notin> set (as @ bs)"
    using is_queue_distinct [OF q] by auto
  have other2: "is_queue s' q3 zs" if "q3 \<noteq> q2" "is_queue s1 q3 zs" "f \<notin> set zs" for q3 zs
  proof (rule is_queue_frame [OF that(2)])
    fix x assume "x \<in> set zs"
    with is_queue_disjoint [OF q2' that(2)] that(1,3) have "x \<notin> set (f # ys)" by auto
    with s'(3) show "fibers s' x = fibers s1 x" by simp
  next
    from s'(4) that(1) show "queue_head q3 s' = queue_head q3 s1" by simp
  qed
  have "ebind (dequeue_fiber f s) (queue_fiber f q2) = Inr s'"
    using s1(1) s'(1) by (simp add: ebind_def)
  moreover have "is_queue s' q (as @ bs)"
    using ne s1(2) fq by (intro other2) auto
  moreover have "is_queue s' q3 zs" if "q3 \<noteq> q" "q3 \<noteq> q2" "is_queue s q3 zs" for q3 zs
  proof (rule other2 [OF that(2) other1 [OF that(1,3)]])
    show "f \<notin> set zs"
      using other1 [OF that(1,3)] s1(6) by (rule is_queue_notin) simp
  qed
  moreover have "erase_links s' = erase_links s"
    using dequeue_fiber_erase [OF s1(1)] queue_fiber_erase [OF s'(1)] by simp
  ultimately show ?thesis using s'(2) by blast
qed

subsection \<open>The timer tick\<close>

lemma erase_links_field:
  assumes "erase_links s' = erase_links s" and "\<And>fb. g (unlinked fb) = g fb"
  shows "map_option g (fibers s' x) = map_option g (fibers s x)"
proof -
  have "map_option g (map_option unlinked (fibers s' x)) =
        map_option g (map_option unlinked (fibers s x))"
    using erase_links_fields(11) [OF assms(1)] by simp
  then show ?thesis by (simp add: option.map_comp comp_def assms(2))
qed



lemma is_queue_ticks_update [simp]: "is_queue (s\<lparr>ticks := t\<rparr>) q xs = is_queue s q xs"
proof -
  have "queue_head q (s\<lparr>ticks := t\<rparr>) = queue_head q s" by (cases q) simp_all
  moreover have "dlseg (s\<lparr>ticks := t\<rparr>) q p h xs e = dlseg s q p h xs e" for p h e
    by (rule dlseg_cong) simp
  ultimately show ?thesis by (simp add: is_queue_def)
qed


subsection \<open>What \<open>schedule\<close> leaves alone\<close>

lemma is_queue_view:
  assumes "queue_view s' = queue_view s"
  shows "is_queue s' q xs = is_queue s q xs"
proof -
  from assms have l: "map_option linkage (fibers s' x) = map_option linkage (fibers s x)" for x
    by (simp add: queue_view_def fun_eq_iff)
  have "map_option (\<lambda>fb. (queue fb, f_next fb, f_prev fb)) (fibers s' x) =
        map_option (\<lambda>fb. (queue fb, f_next fb, f_prev fb)) (fibers s x)" for x
    using l [of x] by (cases "fibers s x"; cases "fibers s' x") (auto simp: linkage_def)
  then have "dlseg s' q p h xs e = dlseg s q p h xs e" for p h e
    by (intro dlseg_links_cong)
  moreover from assms have "queue_head q s' = queue_head q s"
    by (cases q) (simp_all add: queue_view_def)
  ultimately show ?thesis by (simp add: is_queue_def)
qed

lemma queue_view_context:
  assumes "queue_view s' = queue_view s" and "fibers s x = Some fb"
  shows "\<exists>fb'. fibers s' x = Some fb' \<and> f_context fb' = f_context fb"
proof -
  from assms(1) have "map_option linkage (fibers s' x) = map_option linkage (fibers s x)"
    by (simp add: queue_view_def fun_eq_iff)
  with assms(2) show ?thesis by (cases "fibers s' x") (auto simp: linkage_def)
qed

lemma same_queues_refl [simp]: "same_queues s s"
  by (simp add: same_queues_def)

lemma same_queues_trans: "same_queues s s1 \<Longrightarrow> same_queues s1 s2 \<Longrightarrow> same_queues s s2"
  by (simp add: same_queues_def)

lemma modify_same_queues:
  assumes "modify p g s = Inr s'" and "\<And>fb. linkage (g fb) = linkage fb"
  shows "same_queues s s'"
  using assms
  by (auto simp: modify_def ebind_def deref_def store_def same_queues_def queue_view_def
      fun_eq_iff split: if_splits option.splits)

lemma verify_stack_size_same_queues:
  assumes "verify_stack_size cfg f s = Some (Inr s')" shows "same_queues s s'"
proof -
  from assms obtain fb where fb: "deref s f = Inr fb"
    by (auto simp: verify_stack_size_def Let_def rbind_Some_Inr_iff)
  show ?thesis
  proof (cases "stack_top fb - stack_bottom fb < CORTEX_M0_STACK_BASE cfg - SP (cpu s)")
    case False
    with assms fb show ?thesis by (simp add: verify_stack_size_enough)
  next
    case True
    with assms fb obtain n where
      "grow_buffer (stack_top fb - stack_bottom fb) (CORTEX_M0_STACK_BASE cfg - SP (cpu s)) = Some n"
      by (auto simp: verify_stack_size_def Let_def rbind_def split: option.splits)
    from verify_stack_size_grow [OF fb True this] assms obtain b where
      "s' = s\<lparr>fibers := (fibers s)(f \<mapsto> fb\<lparr>stack_bottom := b, stack_top := b + n\<rparr>),
              alloc_next := tl (alloc_next s),
              heap_log := heap_log s @ [Free (stack_bottom fb), Malloc n b]\<rparr>"
      by auto
    with fb show ?thesis
      by (auto simp: same_queues_def queue_view_def fun_eq_iff linkage_def deref_Inr)
  qed
qed

lemma swap_context_same_queues:
  "swap_context a b s = Inr s' \<Longrightarrow> same_queues s s'"
  by (auto simp: swap_context_def ebind_Inr_iff modify_def deref_Inr store_def same_queues_def
      queue_view_def fun_eq_iff linkage_def)

lemma schedule_select_same_queues:
  "schedule_select cfg s = Inr s' \<Longrightarrow> same_queues s s'"
  by (auto simp: schedule_select_def ebind_Inr_iff same_queues_def queue_view_def
      split: if_splits)

lemma schedule_switch_same_queues:
  "schedule_switch cfg old s = Some (Inr (ex, s')) \<Longrightarrow> same_queues s s'"
  by (auto simp: schedule_switch_def rbind_Some_Inr_iff ebind_Inr_iff split: if_splits
      dest!: verify_stack_size_same_queues swap_context_same_queues
      intro: same_queues_trans)

lemma restore_register_context_same_queues:
  "restore_register_context p s = Inr s' \<Longrightarrow> same_queues s s'"
  by (auto simp: restore_register_context_def ebind_Inr_iff same_queues_def queue_view_def)

lemma schedule_same_queues:
  assumes "schedule cfg s = Some (Inr (ex, s'))" shows "same_queues s s'"
proof -
  from assms obtain cb where cb: "deref s (currentFiber s) = Inr cb"
    by (auto simp: schedule_def Let_def rbind_Some_Inr_iff)
  show ?thesis
  proof (cases "flags cb AND MICROBIT_FIBER_FLAG_FOB \<noteq> 0")
    case False
    with assms cb obtain s1 where "schedule_select cfg s = Inr s1"
      "schedule_switch cfg (currentFiber s) s1 = Some (Inr (ex, s'))"
      by (auto simp: schedule_def Let_def rbind_Some_Inr_iff)
    then show ?thesis
      by (blast intro: same_queues_trans schedule_select_same_queues
          schedule_switch_same_queues)
  next
    case True
    with assms cb obtain s1 s2 s3 s4 cb4 where
      1: "verify_stack_size cfg (forkedFiber s) s = Some (Inr s1)"
      and 2: "modify (currentFiber s1)
               (\<lambda>fb. fb\<lparr>flags := flags fb OR MICROBIT_FIBER_FLAG_PARENT\<rparr>) s1 = Inr s2"
      and 3: "modify (forkedFiber s2)
               (\<lambda>fb. fb\<lparr>flags := flags fb OR MICROBIT_FIBER_FLAG_CHILD\<rparr>) s2 = Inr s3"
      and 4: "save_context (forkedFiber s3) s3 = Inr s4"
      and 5: "deref s4 (currentFiber s4) = Inr cb4"
      and 6: "(if flags cb4 AND MICROBIT_FIBER_FLAG_PARENT \<noteq> 0
               then ebind (restore_register_context (currentFiber s4) s4)
                      (\<lambda>s5. Inr (Restored, s5))
               else Inr (Returned, s4)) = Inr (ex, s')"
      unfolding schedule_def Let_def
      by (simp add: rbind_Some_Inr_iff ebind_Inr_iff) blast
    from 1 have "same_queues s s1" by (rule verify_stack_size_same_queues)
    moreover from 2 have "same_queues s1 s2"
      by (rule modify_same_queues) (simp add: linkage_def)
    moreover from 3 have "same_queues s2 s3"
      by (rule modify_same_queues) (simp add: linkage_def)
    moreover from 4 have "same_queues s3 s4"
      unfolding save_context_def by (rule modify_same_queues) (simp add: linkage_def)
    moreover from 6 have "same_queues s4 s'"
      by (auto simp: ebind_Inr_iff split: if_splits dest: restore_register_context_same_queues)
    ultimately show ?thesis by (blast intro: same_queues_trans)
  qed
qed

subsection \<open>\<open>getFiberContext\<close>\<close>


lemma is_queue_store_unlinked:
  assumes "is_queue s q xs" and "fibers s p = Some fb" and "queue fb = None"
  shows "is_queue (store p fb' s) q xs"
proof -
  from assms have "p \<notin> set xs" by (auto dest: is_queue_mem)
  with assms(1) show ?thesis by (simp add: is_queue_def dlseg_store_other)
qed

lemma getFiberContext_pool:
  assumes "is_queue s FiberPool (p # ps)"
  obtains s0 fb where "fibers s p = Some fb" "p \<noteq> 0"
    "fibers s0 p = Some (fb\<lparr>f_next := 0, f_prev := 0, queue := None\<rparr>)"
    "getFiberContext cfg s =
       Inr (p, store p (fb\<lparr>f_next := 0, f_prev := 0, queue := None, flags := 0\<rparr>) s0)"
    "is_queue s0 FiberPool ps"
    "\<And>q zs. q \<noteq> FiberPool \<Longrightarrow> is_queue s q zs \<Longrightarrow> is_queue s0 q zs"
    "\<And>x. x \<notin> set (p # ps) \<Longrightarrow> fibers s0 x = fibers s x"
    "erase_links s0 = erase_links s"
proof -
  from assms have q: "is_queue s FiberPool ([] @ p # ps)" by simp
  from dequeue_fiber_queue [OF q] obtain s0 fb where
    s0: "dequeue_fiber p s = Inr s0" "is_queue s0 FiberPool ps"
      "\<forall>x. x \<notin> set (p # ps) \<longrightarrow> fibers s0 x = fibers s x"
      "\<forall>q'. q' \<noteq> FiberPool \<longrightarrow> queue_head q' s0 = queue_head q' s"
      "fibers s p = Some fb"
      "fibers s0 p = Some (fb\<lparr>f_next := 0, f_prev := 0, queue := None\<rparr>)"
    by auto
  from is_queue_mem [OF assms, of p] have p0: "p \<noteq> 0" by simp
  from is_queue_head [OF assms] have h: "fiberPool s = p" by simp
  have other: "is_queue s0 q zs" if "q \<noteq> FiberPool" "is_queue s q zs" for q zs
  proof (rule is_queue_frame [OF that(2)])
    fix x assume "x \<in> set zs"
    with is_queue_disjoint [OF assms that(2)] that(1) have "x \<notin> set (p # ps)" by auto
    with s0(3) show "fibers s0 x = fibers s x" by simp
  next
    from s0(4) that(1) show "queue_head q s0 = queue_head q s" by simp
  qed
  have "getFiberContext cfg s =
       Inr (p, store p (fb\<lparr>f_next := 0, f_prev := 0, queue := None, flags := 0\<rparr>) s0)"
    using h p0 s0(1,6) by (simp add: getFiberContext_def ebind_def modify_def deref_def)
  with s0 p0 other dequeue_fiber_erase [OF s0(1)] show thesis
    by (intro that [of fb s0]) auto
qed




subsection \<open>Creating a fiber\<close>

lemma same_queues_is_queue: "same_queues s s' \<Longrightarrow> is_queue s' q xs = is_queue s q xs"
  by (rule is_queue_view) (simp add: same_queues_def)
















subsection \<open>Blocking the chosen fiber\<close>



lemma is_queue_forkedFiber_update [simp]:
  "is_queue (s\<lparr>forkedFiber := p\<rparr>) q xs = is_queue s q xs"
proof -
  have "queue_head q (s\<lparr>forkedFiber := p\<rparr>) = queue_head q s" by (cases q) simp_all
  moreover have "dlseg (s\<lparr>forkedFiber := p\<rparr>) q a h xs e = dlseg s q a h xs e" for a h e
    by (rule dlseg_cong) simp
  ultimately show ?thesis by (simp add: is_queue_def)
qed





subsection \<open>Sleeping and the timer tick\<close>



subsection \<open>The flags word\<close>


lemma verify_stack_size_flags:
  assumes "verify_stack_size cfg f s = Some (Inr s')"
  shows "map_option flags (fibers s' x) = map_option flags (fibers s x)"
proof -
  from assms obtain fb where fb: "deref s f = Inr fb"
    by (auto simp: verify_stack_size_def Let_def rbind_Some_Inr_iff)
  show ?thesis
  proof (cases "stack_top fb - stack_bottom fb < CORTEX_M0_STACK_BASE cfg - SP (cpu s)")
    case False
    with assms fb show ?thesis by (simp add: verify_stack_size_enough)
  next
    case True
    with assms fb obtain n where
      "grow_buffer (stack_top fb - stack_bottom fb) (CORTEX_M0_STACK_BASE cfg - SP (cpu s)) = Some n"
      by (auto simp: verify_stack_size_def Let_def rbind_def split: option.splits)
    from verify_stack_size_grow [OF fb True this] assms obtain b where
      "s' = s\<lparr>fibers := (fibers s)(f \<mapsto> fb\<lparr>stack_bottom := b, stack_top := b + n\<rparr>),
              alloc_next := tl (alloc_next s),
              heap_log := heap_log s @ [Free (stack_bottom fb), Malloc n b]\<rparr>"
      by auto
    with fb show ?thesis by (auto simp: deref_Inr)
  qed
qed

lemma swap_context_flags:
  "swap_context a b s = Inr s' \<Longrightarrow> map_option flags (fibers s' x) = map_option flags (fibers s x)"
  by (auto simp: swap_context_def ebind_Inr_iff modify_def deref_Inr store_def)

lemma schedule_select_fibers: "schedule_select cfg s = Inr s' \<Longrightarrow> fibers s' = fibers s"
  by (auto simp: schedule_select_def ebind_Inr_iff split: if_splits)

lemma schedule_switch_flags:
  assumes "schedule_switch cfg old s = Some (Inr (ex, s'))"
  shows "map_option flags (fibers s' x) = map_option flags (fibers s x)"
proof (cases "currentFiber s = old")
  case True
  with assms show ?thesis by (simp add: schedule_switch_def)
next
  case False
  with assms obtain s1 where 1: "verify_stack_size cfg old s = Some (Inr s1)"
    and 2: "swap_context old (currentFiber s1) s1 = Inr s'"
    by (auto simp: schedule_switch_def rbind_Some_Inr_iff ebind_Inr_iff)
  from swap_context_flags [OF 2, of x] verify_stack_size_flags [OF 1, of x] show ?thesis
    by simp
qed

text \<open>Outside fork-on-block mode \<open>schedule\<close> writes no flags word.\<close>

lemma schedule_flags:
  assumes "schedule cfg s = Some (Inr (ex, s'))" and "fibers s (currentFiber s) = Some cb"
    and "flags cb AND MICROBIT_FIBER_FLAG_FOB = 0"
  shows "map_option flags (fibers s' x) = map_option flags (fibers s x)"
proof -
  from assms(1) obtain cb' where "deref s (currentFiber s) = Inr cb'"
    by (auto simp: schedule_def Let_def rbind_Some_Inr_iff)
  with assms(2) have cb: "deref s (currentFiber s) = Inr cb" by (simp add: deref_Inr)
  with assms(1,3) obtain s1 where 1: "schedule_select cfg s = Inr s1"
    and 2: "schedule_switch cfg (currentFiber s) s1 = Some (Inr (ex, s'))"
    by (auto simp: schedule_def Let_def rbind_Some_Inr_iff)
  from schedule_switch_flags [OF 2, of x] schedule_select_fibers [OF 1] show ?thesis by simp
qed

lemma release_fiber_moves:
  assumes q: "is_queue s q (as @ currentFiber s # bs)" and pool: "is_queue s FiberPool ps"
    and ne: "q \<noteq> FiberPool"
  shows "\<exists>s2. release_fiber cfg s = schedule cfg s2 \<and>
           is_queue s2 FiberPool (currentFiber s # ps) \<and> is_queue s2 q (as @ bs) \<and>
           erase_links s2 = erase_links s"
proof -
  let ?f = "currentFiber s"
  from ne have ne': "FiberPool \<noteq> q" by simp
  from move_fiber [OF q pool ne'] obtain s2 where
    s2: "ebind (dequeue_fiber ?f s) (queue_fiber ?f FiberPool) = Inr s2"
      "is_queue s2 q (as @ bs)" "is_queue s2 FiberPool (?f # ps)"
      "erase_links s2 = erase_links s"
    by blast
  from s2(1) obtain s1 where s1: "dequeue_fiber ?f s = Inr s1"
    "queue_fiber ?f FiberPool s1 = Inr s2"
    by (auto simp: ebind_Inr_iff)
  from dequeue_fiber_erase [OF s1(1)] have "currentFiber s1 = ?f"
    by (rule erase_links_fields)
  with s1 have "release_fiber cfg s = schedule cfg s2"
    by (simp add: release_fiber_def ebind_def rbind_def)
  with s2 show ?thesis by blast
qed

subsection \<open>Releasing a fiber\<close>

text \<open>
  C10. \<open>release_fiber\<close>, called by a current fiber that is on a well-formed queue other
  than the pool, reaches its call of \<open>schedule\<close> in a state where that fiber is the head
  of the pool and every record has the flags word it had. When the fiber is not in
  fork-on-block mode and the call returns, the fiber is still the head of the pool with
  its flags word unchanged, so the \<open>CHILD\<close> flag is still set if it was; the next
  \<open>getFiberContext\<close> returns this record with a flags word of zero.
\<close>

theorem release_fiber_keeps_flags:
  assumes q: "is_queue s q (as @ currentFiber s # bs)" and pool: "is_queue s FiberPool ps"
    and ne: "q \<noteq> FiberPool" and cb: "fibers s (currentFiber s) = Some cb"
  shows
    "(\<exists>s2 fb2.
        release_fiber cfg s = schedule cfg s2 \<and> release_fiber_param cfg param s = schedule cfg s2 \<and>
        is_queue s2 FiberPool (currentFiber s # ps) \<and> is_queue s2 q (as @ bs) \<and>
        fibers s2 (currentFiber s) = Some fb2 \<and> flags fb2 = flags cb \<and>
        (\<forall>x. map_option flags (fibers s2 x) = map_option flags (fibers s x))) \<and>
     (\<forall>ex s3. release_fiber cfg s = Some (Inr (ex, s3)) \<and>
          flags cb AND MICROBIT_FIBER_FLAG_FOB = 0 \<longrightarrow>
        is_queue s3 FiberPool (currentFiber s # ps) \<and>
        (\<exists>fb3. fibers s3 (currentFiber s) = Some fb3 \<and> flags fb3 = flags cb \<and>
               queue fb3 = Some FiberPool) \<and>
        (\<forall>x. map_option flags (fibers s3 x) = map_option flags (fibers s x)) \<and>
        (\<exists>s4 fb4. getFiberContext cfg s3 = Inr (currentFiber s, s4) \<and>
               fibers s4 (currentFiber s) = Some fb4 \<and> flags fb4 = 0 \<and>
               is_queue s4 FiberPool ps))"
proof -
  let ?f = "currentFiber s"
  from release_fiber_moves [OF q pool ne, of cfg] obtain s2 where
    s2: "release_fiber cfg s = schedule cfg s2" "is_queue s2 FiberPool (?f # ps)"
      "is_queue s2 q (as @ bs)" "erase_links s2 = erase_links s"
    by blast
  have fl2: "map_option flags (fibers s2 x) = map_option flags (fibers s x)" for x
    using s2(4) by (rule erase_links_field) (simp add: unlinked_def)
  from fl2 [of ?f] cb obtain fb2 where fb2: "fibers s2 ?f = Some fb2" "flags fb2 = flags cb"
    by (cases "fibers s2 ?f") auto
  have c2: "currentFiber s2 = ?f" using s2(4) by (rule erase_links_fields)
  have first: "\<exists>s2 fb2.
        release_fiber cfg s = schedule cfg s2 \<and> release_fiber_param cfg param s = schedule cfg s2 \<and>
        is_queue s2 FiberPool (?f # ps) \<and> is_queue s2 q (as @ bs) \<and>
        fibers s2 ?f = Some fb2 \<and> flags fb2 = flags cb \<and>
        (\<forall>x. map_option flags (fibers s2 x) = map_option flags (fibers s x))"
    by (rule_tac x = s2 in exI, rule_tac x = fb2 in exI)
      (simp add: s2(1-3) fb2 fl2 release_fiber_param_def)
  have second: "is_queue s3 FiberPool (?f # ps) \<and>
        (\<exists>fb3. fibers s3 ?f = Some fb3 \<and> flags fb3 = flags cb \<and> queue fb3 = Some FiberPool) \<and>
        (\<forall>x. map_option flags (fibers s3 x) = map_option flags (fibers s x)) \<and>
        (\<exists>s4 fb4. getFiberContext cfg s3 = Inr (?f, s4) \<and>
               fibers s4 ?f = Some fb4 \<and> flags fb4 = 0 \<and> is_queue s4 FiberPool ps)"
    if r: "release_fiber cfg s = Some (Inr (ex, s3))"
      and nf: "flags cb AND MICROBIT_FIBER_FLAG_FOB = 0" for ex s3
  proof -
    from r s2(1) have sc: "schedule cfg s2 = Some (Inr (ex, s3))" by simp
    from fb2 have cur2: "fibers s2 (currentFiber s2) = Some fb2" by (simp add: c2)
    from nf fb2 have nf2: "flags fb2 AND MICROBIT_FIBER_FLAG_FOB = 0" by simp
    have fl3: "map_option flags (fibers s3 x) = map_option flags (fibers s x)" for x
      using schedule_flags [OF sc cur2 nf2, of x] fl2 [of x] by simp
    from schedule_same_queues [OF sc] have sq: "same_queues s2 s3" .
    have p3: "is_queue s3 FiberPool (?f # ps)"
      using same_queues_is_queue [OF sq] s2(2) by simp
    from is_queue_mem [OF p3, of ?f] obtain fb3 where
      fb3: "fibers s3 ?f = Some fb3" "queue fb3 = Some FiberPool"
      by auto
    from fl3 [of ?f] fb3(1) cb have f3: "flags fb3 = flags cb" by simp
    from p3 obtain s0 fb where
      g: "fibers s0 ?f = Some (fb\<lparr>f_next := 0, f_prev := 0, queue := None\<rparr>)"
        "getFiberContext cfg s3 =
           Inr (?f, store ?f (fb\<lparr>f_next := 0, f_prev := 0, queue := None, flags := 0\<rparr>) s0)"
        "is_queue s0 FiberPool ps"
      by (rule getFiberContext_pool [where cfg = cfg]) blast
    let ?s4 = "store ?f (fb\<lparr>f_next := 0, f_prev := 0, queue := None, flags := 0\<rparr>) s0"
    have p4: "is_queue ?s4 FiberPool ps"
      using g(3,1) by (rule is_queue_store_unlinked) simp
    have "\<exists>s4 fb4. getFiberContext cfg s3 = Inr (?f, s4) \<and>
               fibers s4 ?f = Some fb4 \<and> flags fb4 = 0 \<and> is_queue s4 FiberPool ps"
      by (rule_tac x = ?s4 in exI,
          rule_tac x = "fb\<lparr>f_next := 0, f_prev := 0, queue := None, flags := 0\<rparr>" in exI)
        (simp add: g(2) p4, simp add: store_def)
    moreover have "\<exists>fb3. fibers s3 ?f = Some fb3 \<and> flags fb3 = flags cb \<and>
        queue fb3 = Some FiberPool"
      using fb3 f3 by blast
    ultimately show ?thesis using p3 fl3 by blast
  qed
  from first second show ?thesis by blast
qed

theorem release_fiber_keeps_flags_witness:
  "\<exists>ex s3 fb3 s4 fb4. release_fiber cfg0 st_child = Some (Inr (ex, s3)) \<and>
      is_queue s3 FiberPool [0x100] \<and> fibers s3 0x100 = Some fb3 \<and>
      flags fb3 = MICROBIT_FIBER_FLAG_CHILD \<and>
      getFiberContext cfg0 s3 = Inr (0x100, s4) \<and> fibers s4 0x100 = Some fb4 \<and>
      flags fb4 = 0 \<and> is_queue s4 FiberPool []"
proof -
  have q: "is_queue st_child RunQueue ([] @ currentFiber st_child # [0x200])"
    and p: "is_queue st_child FiberPool []"
    and cb: "fibers st_child (currentFiber st_child) =
      Some (mk_fiber 0x2000 0 4 (Some RunQueue) 0x200 0)"
    and c: "currentFiber st_child = 0x100"
    by (simp_all add: is_queue_def example_defs)
  have nf: "flags (mk_fiber 0x2000 0 4 (Some RunQueue) 0x200 0) AND MICROBIT_FIBER_FLAG_FOB = 0"
    and fl: "flags (mk_fiber 0x2000 0 4 (Some RunQueue) 0x200 0) = MICROBIT_FIBER_FLAG_CHILD"
    by (simp_all add: mk_fiber_def MICROBIT_FIBER_FLAG_FOB_def MICROBIT_FIBER_FLAG_CHILD_def)
  have "\<exists>ex s3. release_fiber cfg0 st_child = Some (Inr (ex, s3))"
    by (simp add: model_defs example_defs)
  then obtain ex s3 where r: "release_fiber cfg0 st_child = Some (Inr (ex, s3))" by blast
  from release_fiber_keeps_flags [OF q p _ cb, of cfg0 0] have
    "\<forall>ex s3. release_fiber cfg0 st_child = Some (Inr (ex, s3)) \<and>
          flags (mk_fiber 0x2000 0 4 (Some RunQueue) 0x200 0) AND MICROBIT_FIBER_FLAG_FOB = 0 \<longrightarrow>
        is_queue s3 FiberPool (currentFiber st_child # []) \<and>
        (\<exists>fb3. fibers s3 (currentFiber st_child) = Some fb3 \<and>
               flags fb3 = flags (mk_fiber 0x2000 0 4 (Some RunQueue) 0x200 0) \<and>
               queue fb3 = Some FiberPool) \<and>
        (\<forall>x. map_option flags (fibers s3 x) = map_option flags (fibers st_child x)) \<and>
        (\<exists>s4 fb4. getFiberContext cfg0 s3 = Inr (currentFiber st_child, s4) \<and>
               fibers s4 (currentFiber st_child) = Some fb4 \<and> flags fb4 = 0 \<and>
               is_queue s4 FiberPool [])"
    by simp
  from this [rule_format, OF conjI [OF r nf]] obtain fb3 s4 fb4 where
    "is_queue s3 FiberPool [0x100]" "fibers s3 0x100 = Some fb3"
    "flags fb3 = MICROBIT_FIBER_FLAG_CHILD"
    "getFiberContext cfg0 s3 = Inr (0x100, s4)" "fibers s4 0x100 = Some fb4"
    "flags fb4 = 0" "is_queue s4 FiberPool []"
    unfolding c fl by blast
  with r show ?thesis by blast
qed

subsection \<open>Fork-on-block mode\<close>




















subsection \<open>The flags of a fork-on-block episode\<close>



end
